theory Spec2Isabelle
  imports Complex_Main "HOL-Library.AList"
begin

section \<open>Identity resolution (script.js, step 1)\<close>

text \<open>
  JavaScript strings are modelled as \<^typ>\<open>string\<close>, a non-ASCII character standing as
  its UTF-8 bytes; \<open>null\<close> and \<open>undefined\<close> are \<open>None\<close>. A value is falsy when it
  is \<open>null\<close> or the empty string.
\<close>

datatype js_error = URIError

definition truthy :: "string option \<Rightarrow> bool" where
  "truthy v = (case v of None \<Rightarrow> False | Some s \<Rightarrow> s \<noteq> [])"

text \<open>The operator \<open>a || b\<close> on values that are strings or \<open>null\<close>.\<close>

definition js_or :: "string option \<Rightarrow> string option \<Rightarrow> string option" where
  "js_or a b = (if truthy a then a else b)"

subsection \<open>The built-in \<open>decodeURIComponent\<close>\<close>

text \<open>
  The built-in replaces every escape \<open>%XY\<close> by the octet it names and raises
  \<open>URIError\<close> when a \<open>%\<close> is not followed by two hexadecimal digits or when the
  octets of an escape sequence are not the UTF-8 encoding of a code point.
\<close>

definition hex_val :: "char \<Rightarrow> nat option" where
  "hex_val c =
     (let n = (of_char c :: nat)
      in if 48 \<le> n \<and> n \<le> 57 then Some (n - 48)
         else if 65 \<le> n \<and> n \<le> 70 then Some (n - 55)
         else if 97 \<le> n \<and> n \<le> 102 then Some (n - 87)
         else None)"

text \<open>One escape \<open>%XY\<close> at the head of the text: its octet and the text after it.\<close>

fun take_octet :: "string \<Rightarrow> (nat \<times> string) option" where
  "take_octet (p # x # y # rest) =
     (if p = CHR ''%'' then
        (case (hex_val x, hex_val y) of
           (Some h, Some l) \<Rightarrow> Some (16 * h + l, rest)
         | _ \<Rightarrow> None)
      else None)"
| "take_octet _ = None"

text \<open>The \<open>n\<close> continuation escapes that follow the leading octet of a sequence.\<close>

fun take_octets :: "nat \<Rightarrow> string \<Rightarrow> (nat list \<times> string) option" where
  "take_octets 0 s = Some ([], s)"
| "take_octets (Suc n) s =
     (case take_octet s of
        None \<Rightarrow> None
      | Some (b, rest) \<Rightarrow>
          (case take_octets n rest of
             None \<Rightarrow> None
           | Some (bs, rest') \<Rightarrow> Some (b # bs, rest')))"

text \<open>The number of octets announced by a leading octet (0 when it cannot lead).\<close>

definition seq_len :: "nat \<Rightarrow> nat" where
  "seq_len b =
     (if b < 128 then 1
      else if 192 \<le> b \<and> b < 224 then 2
      else if 224 \<le> b \<and> b < 240 then 3
      else if 240 \<le> b \<and> b < 248 then 4
      else 0)"

definition is_cont :: "nat \<Rightarrow> bool" where
  "is_cont b = (128 \<le> b \<and> b < 192)"

definition code_point :: "nat \<Rightarrow> nat list \<Rightarrow> nat" where
  "code_point b bs =
     foldl (\<lambda>acc c. acc * 64 + (c - 128))
       (if length bs = 1 then b - 192 else if length bs = 2 then b - 224 else b - 240) bs"

definition valid_utf8 :: "nat \<Rightarrow> nat list \<Rightarrow> bool" where
  "valid_utf8 b bs =
     (list_all is_cont bs \<and>
      (let cp = code_point b bs
       in if length bs = 1 then 128 \<le> cp
          else if length bs = 2 then 2048 \<le> cp \<and> \<not> (55296 \<le> cp \<and> cp \<le> 57343)
          else 65536 \<le> cp \<and> cp \<le> 1114111))"

lemma take_octet_shorter: "take_octet s = Some (b, r) \<Longrightarrow> length r < length s"
  by (induction s rule: take_octet.induct) (auto split: if_splits option.splits)

lemma take_octets_shorter: "take_octets n s = Some (bs, r) \<Longrightarrow> length r \<le> length s"
proof (induction n arbitrary: s bs r)
  case 0
  then show ?case by simp
next
  case (Suc n)
  then show ?case
    by (fastforce split: option.splits dest: take_octet_shorter)
qed

function decodeURIComponent :: "string \<Rightarrow> js_error + string" where
  "decodeURIComponent [] = Inr []"
| "decodeURIComponent (c # cs) =
     (if c \<noteq> CHR ''%'' then
        (case decodeURIComponent cs of Inl e \<Rightarrow> Inl e | Inr t \<Rightarrow> Inr (c # t))
      else
        (case take_octet (c # cs) of
           None \<Rightarrow> Inl URIError
         | Some (b, rest) \<Rightarrow>
             if seq_len b = 0 then Inl URIError
             else
               (case take_octets (seq_len b - 1) rest of
                  None \<Rightarrow> Inl URIError
                | Some (bs, rest') \<Rightarrow>
                    if b < 128 \<or> valid_utf8 b bs then
                      (case decodeURIComponent rest' of
                         Inl e \<Rightarrow> Inl e
                       | Inr t \<Rightarrow> Inr (map char_of (b # bs) @ t))
                    else Inl URIError)))"
  by pat_completeness auto
termination
proof (relation "measure length")
  show "wf (measure length)" by simp
next
  fix c :: char and cs :: string
  show "(cs, c # cs) \<in> measure length" by simp
next
  fix c :: char and cs y rest' :: string and b :: nat and ns :: "nat list"
    and x2 :: "nat \<times> string" and x2a :: "nat list \<times> string"
  assume "take_octet (c # cs) = Some x2" and "(b, y) = x2"
    and "take_octets (seq_len b - 1) y = Some x2a" and "(ns, rest') = x2a"
  then have "length y < length (c # cs)" and "length rest' \<le> length y"
    using take_octet_shorter [of "c # cs" b y] take_octets_shorter [of "seq_len b - 1" y ns rest']
    by auto
  then show "(rest', c # cs) \<in> measure length" by simp
qed

subsection \<open>Resolving \<open>USER_UID\<close>\<close>

text \<open>
  What the script reads at startup: the two query parameters as \<open>URLSearchParams.get\<close>
  returns them, the main-site token in local and in session storage, and the slot
  \<open>openroot_current_uid\<close> of local storage.
\<close>

record env =
  url_uid :: "string option"
  url_user :: "string option"
  main_local :: "string option"
  main_session :: "string option"
  cache_slot :: "string option"

text \<open>
  The outcome: the identity, the cache slot afterwards, and whether \<open>setItem\<close> was
  called on it.
\<close>

record resolved =
  USER_UID :: string
  cache_after :: "string option"
  cache_written :: bool

definition uidFromUrl :: "env \<Rightarrow> string option" where
  "uidFromUrl e = js_or (js_or (url_uid e) (url_user e)) None"

definition uidFromMainSite :: "env \<Rightarrow> string option" where
  "uidFromMainSite e = js_or (js_or (main_local e) (main_session e)) None"

definition cachedUid :: "env \<Rightarrow> string option" where
  "cachedUid e = js_or (cache_slot e) None"

definition persist_uid :: "env \<Rightarrow> string \<Rightarrow> resolved" where
  "persist_uid e u =
     (if u \<noteq> [] \<and> Some u \<noteq> cachedUid e
      then \<lparr>USER_UID = u, cache_after = Some u, cache_written = True\<rparr>
      else \<lparr>USER_UID = u, cache_after = cache_slot e, cache_written = False\<rparr>)"

definition resolve_uid :: "env \<Rightarrow> js_error + resolved" where
  "resolve_uid e =
     (case uidFromUrl e of
        Some t \<Rightarrow>
          (case decodeURIComponent t of
             Inl err \<Rightarrow> Inl err
           | Inr u \<Rightarrow> Inr (persist_uid e u))
      | None \<Rightarrow>
          (case uidFromMainSite e of
             Some m \<Rightarrow> Inr (persist_uid e m)
           | None \<Rightarrow>
               (case cachedUid e of
                  Some c \<Rightarrow> Inr (persist_uid e c)
                | None \<Rightarrow> Inr (persist_uid e ''guest_user''))))"

subsection \<open>The resolution order of the specification\<close>

text \<open>
  The specification's words (section 4.1): the first defined value among the URL-decoded
  query-string token under its two names, the main-site token in persistent then in
  session storage, the cached token, and the guest literal. The values \<open>url_uid\<close> and
  \<open>url_user\<close> are what \<open>URLSearchParams.get\<close> returns: the tokens of the query
  string, URL-decoded.
\<close>

fun first_defined :: "string option list \<Rightarrow> string option" where
  "first_defined [] = None"
| "first_defined (v # vs) = (if truthy v then v else first_defined vs)"

definition spec_identity :: "env \<Rightarrow> string" where
  "spec_identity e =
     (case first_defined [url_uid e, url_user e, main_local e, main_session e, cache_slot e] of
        Some u \<Rightarrow> u
      | None \<Rightarrow> ''guest_user'')"

text \<open>A token, if there is one, has no percent sign (a second decoding leaves it alone).\<close>

definition percent_free :: "string option \<Rightarrow> bool" where
  "percent_free v = (case v of None \<Rightarrow> True | Some t \<Rightarrow> CHR ''%'' \<notin> set t)"

text \<open>A visit with at most the \<open>uid\<close> parameter and the cache slot.\<close>

definition visit :: "string option \<Rightarrow> string option \<Rightarrow> env" where
  "visit q c = \<lparr>url_uid = q, url_user = None, main_local = None, main_session = None, cache_slot = c\<rparr>"

section \<open>Persisted state and the star registry\<close>

definition MAX_STARS :: nat where
  "MAX_STARS = 5"

subsection \<open>Values\<close>

text \<open>
  The members of a starred set are the strings \<open>toggleStar\<close> adds and whatever
  \<open>JSON.parse\<close> found in the arrays of the storage slot: strings, numbers, booleans,
  \<open>null\<close>, and nested arrays or objects. A number is finite, with its value (the two
  zeros are one member of a \<open>Set\<close>), or an infinity (the parse of \<open>1e999\<close> or
  \<open>-1e999\<close>, by its sign); JSON has no \<open>NaN\<close> and no \<open>undefined\<close>. A nested array
  or object is \<open>Obj n\<close>, the \<open>n\<close>-th object the parser allocated: in a \<open>Set\<close> an
  object is equal to itself only.
\<close>

datatype js_number = Finite real | Infinite bool

datatype js_value = Str string | Num js_number | Bool bool | Null | Obj nat

text \<open>The test \<open>if (v)\<close>.\<close>

definition js_truthy :: "js_value \<Rightarrow> bool" where
  "js_truthy v =
     (case v of
        Str s \<Rightarrow> s \<noteq> []
      | Num n \<Rightarrow> n \<noteq> Finite 0
      | Bool b \<Rightarrow> b
      | Null \<Rightarrow> False
      | Obj n \<Rightarrow> True)"

text \<open>
  A member of an array through \<open>JSON.stringify\<close> and \<open>JSON.parse\<close>: an infinity is
  written as \<open>null\<close>. A nested array or object comes back as a new object; the model
  keeps its number, and the results on the round trip leave such members out.
\<close>

definition through_JSON :: "js_value \<Rightarrow> js_value" where
  "through_JSON v = (case v of Num (Infinite s) \<Rightarrow> Null | _ \<Rightarrow> v)"

text \<open>The members that come back from JSON as they were.\<close>

definition json_stable :: "js_value \<Rightarrow> bool" where
  "json_stable v =
     (case v of Num (Infinite s) \<Rightarrow> False | Obj n \<Rightarrow> False | _ \<Rightarrow> True)"

subsection \<open>Sets and arrays\<close>

text \<open>
  A JavaScript \<open>Set\<close> is the list of its members in insertion order, no member
  twice; an array is a list. \<open>new Set(ids)\<close> adds the elements of the array one by
  one, so a repeated element keeps its first position.
\<close>

type_synonym js_set = "js_value list"

definition set_has :: "'a list \<Rightarrow> 'a \<Rightarrow> bool" where
  "set_has s x = (x \<in> set s)"

definition set_add :: "'a list \<Rightarrow> 'a \<Rightarrow> 'a list" where
  "set_add s x = (if x \<in> set s then s else s @ [x])"

definition set_delete :: "'a list \<Rightarrow> 'a \<Rightarrow> 'a list" where
  "set_delete s x = removeAll x s"

definition new_Set :: "'a list \<Rightarrow> 'a list" where
  "new_Set ids = foldl set_add [] ids"

definition Array_from :: "'a list \<Rightarrow> 'a list" where
  "Array_from s = s"

text \<open>\<open>s.values().next().value\<close>: the earliest-inserted member, \<open>undefined\<close> when empty.\<close>

definition set_first :: "'a list \<Rightarrow> 'a option" where
  "set_first s = (case s of [] \<Rightarrow> None | x # _ \<Rightarrow> Some x)"

subsection \<open>The storage slot\<close>

text \<open>
  The value read from the per-user slot, after \<open>JSON.parse\<close>: an object (or array) is
  the list \<open>Object.entries\<close> gives, in its order, each value the list of values that
  \<open>new Set\<close> iterates (the elements of an array, the characters of a string, nothing
  for \<open>null\<close>) or something the constructor throws on (a number, a boolean, a plain
  object). \<open>NotObject\<close> is \<open>null\<close> or a primitive.
\<close>

datatype saved_ids = Ids "js_value list" | NotIterable

datatype saved = NotObject | Entries "(string \<times> saved_ids) list"

type_synonym registry = "(string \<times> js_set) list"

text \<open>
  \<open>Storage.get(fallback)\<close>; the slot is \<open>None\<close> when the key is absent or unparsable.
  Writes to local storage are taken to succeed (the \<open>catch\<close> blocks around them only
  log).
\<close>

definition Storage_get :: "saved \<Rightarrow> saved option \<Rightarrow> saved" where
  "Storage_get fallback slot = (case slot of None \<Rightarrow> fallback | Some v \<Rightarrow> v)"

text \<open>The loop of \<open>init\<close> over \<open>Object.entries(saved)\<close> (script.js, lines 115-123).\<close>

definition hydrate :: "registry \<Rightarrow> saved \<Rightarrow> registry" where
  "hydrate m saved =
     (case saved of
        NotObject \<Rightarrow> m
      | Entries es \<Rightarrow>
          foldl (\<lambda>acc (segId, ids).
                   case ids of
                     Ids xs \<Rightarrow> AList.update segId (new_Set xs) acc
                   | NotIterable \<Rightarrow> acc)
            m es)"

subsection \<open>The object \<open>toSave\<close>\<close>

text \<open>
  A plain object is the list of its own properties in creation order. The assignment
  \<open>obj[k] = v\<close> of an array \<open>v\<close> creates or overwrites the own property \<open>k\<close>,
  except for the key \<open>__proto__\<close>: that one is the accessor of \<open>Object.prototype\<close>,
  which makes \<open>v\<close> the prototype and creates no property.
\<close>

definition obj_assign :: "string \<Rightarrow> 'v \<Rightarrow> (string \<times> 'v) list \<Rightarrow> (string \<times> 'v) list" where
  "obj_assign k v obj = (if k = ''__proto__'' then obj else AList.update k v obj)"

text \<open>
  An array index: the decimal text, without leading zeros, of a number below
  \<open>2^32 - 1\<close>. \<open>JSON.stringify\<close> and \<open>Object.entries\<close> visit the own properties
  that are array indices first, in ascending order, then the others in creation order.
\<close>

definition is_digit :: "char \<Rightarrow> bool" where
  "is_digit c = (c \<in> set ''0123456789'')"

definition array_index :: "string \<Rightarrow> int option" where
  "array_index s =
     (case s of
        [] \<Rightarrow> None
      | c # cs \<Rightarrow>
          if \<not> list_all is_digit s \<or> (c = CHR ''0'' \<and> cs \<noteq> []) then None
          else
            (let n = foldl (\<lambda>a d. 10 * a + (of_char d - 48)) 0 s
             in if n < 4294967295 then Some n else None))"

definition index_key :: "string \<times> 'v \<Rightarrow> int" where
  "index_key p = (case array_index (fst p) of None \<Rightarrow> 0 | Some n \<Rightarrow> n)"

definition own_entries :: "(string \<times> 'v) list \<Rightarrow> (string \<times> 'v) list" where
  "own_entries obj =
     sort_key index_key (filter (\<lambda>p. array_index (fst p) \<noteq> None) obj)
       @ filter (\<lambda>p. array_index (fst p) = None) obj"

text \<open>The loop of \<open>toggleStar\<close> building \<open>toSave\<close> (script.js, lines 284-287).\<close>

definition toSave_of :: "registry \<Rightarrow> (string \<times> js_value list) list" where
  "toSave_of m = foldl (\<lambda>toSave (k, s). obj_assign k (Array_from s) toSave) [] m"

text \<open>
  What \<open>Storage.set(toSave)\<close> leaves in the slot, as the next \<open>Storage.get\<close> reads it:
  the entries in the order of \<open>JSON.stringify\<close>, their members through JSON.
\<close>

definition stored :: "(string \<times> js_value list) list \<Rightarrow> saved" where
  "stored obj = Entries (map (\<lambda>(k, xs). (k, Ids (map through_JSON xs))) (own_entries obj))"

definition snapshot :: "registry \<Rightarrow> saved" where
  "snapshot m = stored (toSave_of m)"

section \<open>The document\<close>

text \<open>
  A star button carries the class \<open>starred\<close> and two ARIA attributes. A card is a DOM
  node (identified by \<open>card_node\<close>) with \<open>dataset.id\<close>, \<open>dataset.origIndex\<close> and
  possibly a star button. A segment is a node with its \<open>id\<close> attribute, its class
  string, \<open>dataset.segId\<close> and its cards in document order. Of the children of a
  segment only the cards are kept; segments are not nested, so a card lies in one
  segment. \<open>dataset.origIndex\<close> is the number \<open>setupCards\<close> wrote, if any. A
  card that \<open>reorderSegment\<close> has moved into a document fragment is in no segment until
  the fragment is appended.
\<close>

record button =
  starred_class :: bool
  aria_pressed :: "string option"
  aria_label :: "string option"

record card =
  card_node :: nat
  dataset_id :: "string option"
  dataset_origIndex :: "nat option"
  star_btn :: "button option"

record segment =
  seg_node :: nat
  attr_id :: "string option"
  className :: string
  dataset_segId :: "string option"
  seg_cards :: "card list"

text \<open>
  An animation-frame callback that is pending: the full reorder scheduled by \<open>init\<close>,
  the append of a fragment (by its number) to a segment scheduled by \<open>reorderSegment\<close>,
  the reposition of a card scheduled by \<open>toggleStar\<close>.
\<close>

datatype frame_task = ReorderAll | AppendFragment nat nat | Reposition nat

record app =
  starredMap :: registry
  cardSegmentMap :: "(string \<times> nat) list"
  doc :: "segment list"
  fragments :: "(nat \<times> card list) list"
  slot :: "saved option"
  set_calls :: "saved list"
  pending :: "frame_task list"
  initialized :: bool

definition OpenrootApp :: "segment list \<Rightarrow> saved option \<Rightarrow> app" where
  "OpenrootApp d sl =
     \<lparr>starredMap = [], cardSegmentMap = [], doc = d, fragments = [], slot = sl,
      set_calls = [], pending = [], initialized = False\<rparr>"

text \<open>
  The card that is node \<open>n\<close>, in a segment or in a fragment (\<open>closest\<close> and the
  references held by callbacks reach detached cards too).
\<close>

definition find_card :: "app \<Rightarrow> nat \<Rightarrow> card option" where
  "find_card st n =
     find (\<lambda>c. card_node c = n)
       (concat (map seg_cards (doc st)) @ concat (map snd (fragments st)))"

definition find_segment :: "segment list \<Rightarrow> nat \<Rightarrow> segment option" where
  "find_segment d sn = find (\<lambda>s. seg_node s = sn) d"

text \<open>\<open>Number(card.dataset.origIndex) || 0\<close>.\<close>

definition orig :: "card \<Rightarrow> nat" where
  "orig c = (case dataset_origIndex c of None \<Rightarrow> 0 | Some i \<Rightarrow> i)"

text \<open>\<open>segSet.has(c.dataset.id)\<close>; no member of a set is \<open>undefined\<close>.\<close>

definition has_card :: "js_set \<Rightarrow> card \<Rightarrow> bool" where
  "has_card segSet c =
     (case dataset_id c of None \<Rightarrow> False | Some i \<Rightarrow> set_has segSet (Str i))"

text \<open>\<open>starredMap.get(segId) || new Set()\<close>.\<close>

definition get_set :: "registry \<Rightarrow> string option \<Rightarrow> js_set" where
  "get_set m k =
     (case k of
        None \<Rightarrow> []
      | Some segId \<Rightarrow> (case map_of m segId of None \<Rightarrow> [] | Some s \<Rightarrow> s))"

subsection \<open>\<open>setupCards\<close>\<close>

definition digit_char :: "nat \<Rightarrow> char" where
  "digit_char d = char_of (48 + d)"

fun show_nat :: "nat \<Rightarrow> string" where
  "show_nat n = (if n < 10 then [digit_char n] else show_nat (n div 10) @ [digit_char (n mod 10)])"

definition is_ws :: "char \<Rightarrow> bool" where
  "is_ws c = (c \<in> set [CHR '' '', CHR 0x09, CHR 0x0A, CHR 0x0B, CHR 0x0C, CHR 0x0D])"

definition lower :: "char \<Rightarrow> char" where
  "lower c = (let n = (of_char c :: nat) in if 65 \<le> n \<and> n \<le> 90 then char_of (n + 32) else c)"

text \<open>
  \<open>label.replace(/\s+/g, "_")\<close>: every run of white space becomes one underscore.
  White space is the ASCII one here, and \<open>lower\<close> is \<open>toLowerCase\<close> on ASCII letters
  only (the built-in also maps letters beyond ASCII); the results below do not depend on
  how a \<open>segId\<close> is derived from a label beyond ASCII.
\<close>

function replace_ws :: "string \<Rightarrow> string" where
  "replace_ws [] = []"
| "replace_ws (c # cs) =
     (if is_ws c then CHR ''_'' # replace_ws (dropWhile is_ws cs) else c # replace_ws cs)"
  by pat_completeness auto
termination
  by (relation "measure length") (auto simp: length_dropWhile_le less_Suc_eq_le)

definition or_default :: "string option \<Rightarrow> string \<Rightarrow> string" where
  "or_default a b = (case a of None \<Rightarrow> b | Some s \<Rightarrow> if s \<noteq> [] then s else b)"

definition derive_segId :: "segment \<Rightarrow> string" where
  "derive_segId seg =
     (let label = or_default (attr_id seg) (or_default (Some (className seg)) ''segment'')
      in map lower (replace_ws label))"

text \<open>
  One step of the \<open>forEach\<close> over the cards of a segment: the cards done so far, the
  counter \<open>autoId\<close> and \<open>cardSegmentMap\<close> are threaded through.
\<close>

definition index_card ::
  "nat \<Rightarrow> card list \<times> nat \<times> (string \<times> nat) list \<Rightarrow> card \<Rightarrow> card list \<times> nat \<times> (string \<times> nat) list"
where
  "index_card sn acc c =
     (case acc of
        (done, autoId, csm) \<Rightarrow>
          (let fresh = \<not> truthy (dataset_id c);
               autoId' = (if fresh then autoId + 1 else autoId);
               cid = (if fresh then ''card-'' @ show_nat autoId' else or_default (dataset_id c) []);
               idx = length done
           in (done @ [c\<lparr>dataset_id := Some cid, dataset_origIndex := Some idx\<rparr>],
               autoId', AList.update cid sn csm)))"

definition index_cards ::
  "nat \<Rightarrow> nat \<Rightarrow> card list \<Rightarrow> (string \<times> nat) list \<Rightarrow> card list \<times> nat \<times> (string \<times> nat) list"
where
  "index_cards sn autoId cs csm = foldl (index_card sn) ([], autoId, csm) cs"

definition setup_segment ::
  "segment list \<times> nat \<times> (string \<times> nat) list \<times> registry \<Rightarrow> segment \<Rightarrow>
   segment list \<times> nat \<times> (string \<times> nat) list \<times> registry"
where
  "setup_segment acc seg =
     (case acc of
        (done, autoId, csm, m) \<Rightarrow>
          (let segId = (if truthy (dataset_segId seg) then or_default (dataset_segId seg) []
                        else derive_segId seg)
           in case index_cards (seg_node seg) autoId (seg_cards seg) csm of
                (cards', autoId', csm') \<Rightarrow>
                  (done @ [seg\<lparr>dataset_segId := Some segId, seg_cards := cards'\<rparr>],
                   autoId', csm',
                   if map_of m segId = None then AList.update segId [] m else m)))"

definition setupCards :: "app \<Rightarrow> app" where
  "setupCards st =
     (case foldl setup_segment ([], 0, cardSegmentMap st, starredMap st) (doc st) of
        (d, autoId, csm, m) \<Rightarrow> st\<lparr>doc := d, cardSegmentMap := csm, starredMap := m\<rparr>)"


subsection \<open>Star indicators\<close>

definition updateStarAttr :: "button \<Rightarrow> bool \<Rightarrow> button" where
  "updateStarAttr btn isStarred =
     btn\<lparr>starred_class := isStarred,
         aria_pressed := Some (if isStarred then ''true'' else ''false''),
         aria_label := Some (if isStarred then ''Unstar card'' else ''Star card'')\<rparr>"

text \<open>
  Applying \<open>f\<close> to the star button of the card that is node \<open>n\<close>, among the cards of
  a list, of the segments, of the fragments.
\<close>

definition on_button_in :: "nat \<Rightarrow> (button \<Rightarrow> button) \<Rightarrow> card list \<Rightarrow> card list" where
  "on_button_in n f cs =
     map (\<lambda>c. if card_node c = n then c\<lparr>star_btn := map_option f (star_btn c)\<rparr> else c) cs"

definition on_button :: "nat \<Rightarrow> (button \<Rightarrow> button) \<Rightarrow> segment list \<Rightarrow> segment list" where
  "on_button n f d = map (\<lambda>seg. seg\<lparr>seg_cards := on_button_in n f (seg_cards seg)\<rparr>) d"

definition on_button_detached ::
  "nat \<Rightarrow> (button \<Rightarrow> button) \<Rightarrow> (nat \<times> card list) list \<Rightarrow> (nat \<times> card list) list"
where
  "on_button_detached n f fs = map (\<lambda>(i, cs). (i, on_button_in n f cs)) fs"

text \<open>The body of the loop of \<open>applyInitialStarState\<close> for one card.\<close>

definition initial_star :: "app \<Rightarrow> card \<Rightarrow> card" where
  "initial_star st c =
     (case (star_btn c, dataset_id c) of
        (Some btn, Some cid) \<Rightarrow>
          (case map_of (cardSegmentMap st) cid of
             None \<Rightarrow> c
           | Some sn \<Rightarrow>
               (case find_segment (doc st) sn of
                  None \<Rightarrow> c
                | Some seg \<Rightarrow>
                    if cid = [] \<or> \<not> truthy (dataset_segId seg) then c
                    else c\<lparr>star_btn :=
                           Some (updateStarAttr btn
                                   (set_has (get_set (starredMap st) (dataset_segId seg))
                                      (Str cid)))\<rparr>))
      | _ \<Rightarrow> c)"

definition applyInitialStarState :: "app \<Rightarrow> app" where
  "applyInitialStarState st =
     st\<lparr>doc := map (\<lambda>seg. seg\<lparr>seg_cards := map (initial_star st) (seg_cards seg)\<rparr>) (doc st)\<rparr>"

subsection \<open>\<open>init\<close> and \<open>destroy\<close>\<close>

definition init :: "app \<Rightarrow> app" where
  "init st =
     (if initialized st then st
      else
        (let st1 = st\<lparr>initialized := True\<rparr>;
             saved = Storage_get (Entries []) (slot st1);
             st2 = st1\<lparr>starredMap := hydrate (starredMap st1) saved\<rparr>;
             st3 = applyInitialStarState (setupCards st2)
         in st3\<lparr>pending := pending st3 @ [ReorderAll]\<rparr>))"

definition destroy :: "app \<Rightarrow> app" where
  "destroy st = st\<lparr>initialized := False\<rparr>"

subsection \<open>\<open>toggleStar\<close>\<close>

text \<open>
  A call of \<open>toggleStar\<close> on the star button inside the card that is node
  \<open>ev_target\<close> (a click on it, or the Enter or space key), and the answer
  \<open>window.confirm\<close> gives if it is asked.
\<close>

record toggle_event =
  ev_target :: nat
  ev_confirm :: bool

text \<open>Lines 260-296 of script.js, once card, identifier and segment are resolved.\<close>

definition toggle_resolved :: "app \<Rightarrow> toggle_event \<Rightarrow> string \<Rightarrow> string \<Rightarrow> app" where
  "toggle_resolved st ev cid segId =
     (let m1 = (if map_of (starredMap st) segId = None
                then AList.update segId [] (starredMap st) else starredMap st);
          segSet = get_set m1 (Some segId);
          full = (\<not> set_has segSet (Str cid) \<and> MAX_STARS \<le> length segSet)
      in if full \<and> \<not> ev_confirm ev then st\<lparr>starredMap := m1\<rparr>
         else
           (let s1 = (if full then
                        (case set_first segSet of
                           None \<Rightarrow> segSet
                         | Some oldest \<Rightarrow>
                             if js_truthy oldest then set_delete segSet oldest else segSet)
                      else segSet);
                was = set_has s1 (Str cid);
                s2 = (if was then set_delete s1 (Str cid) else set_add s1 (Str cid));
                m2 = AList.update segId s2 m1;
                toSave = toSave_of m2
            in st\<lparr>starredMap := m2,
                   doc := on_button (ev_target ev) (\<lambda>b. updateStarAttr b (\<not> was)) (doc st),
                   fragments :=
                     on_button_detached (ev_target ev) (\<lambda>b. updateStarAttr b (\<not> was))
                       (fragments st),
                   slot := Some (stored toSave),
                   set_calls := set_calls st @ [stored toSave],
                   pending := pending st @ [Reposition (ev_target ev)]\<rparr>))"

text \<open>
  The guards of lines 242-258. A segment registered in \<open>cardSegmentMap\<close> always has
  its \<open>segId\<close> (\<open>setupCards\<close> assigns it first) and stays in the document; the two
  branches for the contrary return the state as it is.
\<close>

definition toggleStar :: "app \<Rightarrow> toggle_event \<Rightarrow> app" where
  "toggleStar st ev =
     (case find_card st (ev_target ev) of
        None \<Rightarrow> st
      | Some crd \<Rightarrow>
          (case dataset_id crd of
             None \<Rightarrow> st
           | Some cid \<Rightarrow>
               if cid = [] then st
               else
                 (case map_of (cardSegmentMap st) cid of
                    None \<Rightarrow> st
                  | Some sn \<Rightarrow>
                      (case find_segment (doc st) sn of
                         None \<Rightarrow> st
                       | Some seg \<Rightarrow>
                           (case dataset_segId seg of
                              None \<Rightarrow> st
                            | Some segId \<Rightarrow> toggle_resolved st ev cid segId)))))"

subsection \<open>Reordering\<close>

text \<open>
  \<open>reorderSegment\<close>: the two arrays filled by the loop over the cards, the stable sort of
  the unstarred ones, and the cards of the fragment in their order (the cards as they
  are when the function returns at line 305).
\<close>

definition is_starred :: "js_set \<Rightarrow> card \<Rightarrow> bool" where
  "is_starred segSet c =
     (case dataset_id c of None \<Rightarrow> False | Some i \<Rightarrow> i \<noteq> [] \<and> set_has segSet (Str i))"

definition split_cards :: "js_set \<Rightarrow> card list \<Rightarrow> card list \<times> card list" where
  "split_cards segSet cards =
     foldl (\<lambda>(starred, unstarred) c.
              if is_starred segSet c then (starred @ [c], unstarred)
              else (starred, unstarred @ [c]))
       ([], []) cards"

definition reorder_cards :: "js_set \<Rightarrow> card list \<Rightarrow> card list" where
  "reorder_cards segSet cards =
     (if length cards \<le> 1 then cards
      else (case split_cards segSet cards of
              (starred, unstarred) \<Rightarrow> starred @ sort_key orig unstarred))"

text \<open>
  The synchronous part of \<open>reorderSegment\<close>: a segment of two cards or more loses its
  cards to a new fragment, whose append to the segment is scheduled for the next frame.
\<close>

definition reorderSegment :: "app \<Rightarrow> nat \<Rightarrow> app" where
  "reorderSegment st sn =
     (case find_segment (doc st) sn of
        None \<Rightarrow> st
      | Some seg \<Rightarrow>
          if length (seg_cards seg) \<le> 1 then st
          else
            (let frag = length (fragments st)
             in st\<lparr>doc := map (\<lambda>s. if seg_node s = sn then s\<lparr>seg_cards := []\<rparr> else s) (doc st),
                    fragments :=
                      fragments st @
                      [(frag, reorder_cards (get_set (starredMap st) (dataset_segId seg))
                                (seg_cards seg))],
                    pending := pending st @ [AppendFragment sn frag]\<rparr>))"

text \<open>The deferred part: \<open>segmentEl.appendChild(frag)\<close> empties the fragment.\<close>

definition appendFragment :: "app \<Rightarrow> nat \<Rightarrow> nat \<Rightarrow> app" where
  "appendFragment st sn frag =
     (case map_of (fragments st) frag of
        None \<Rightarrow> st
      | Some cs \<Rightarrow>
          st\<lparr>doc := map (\<lambda>s. if seg_node s = sn then s\<lparr>seg_cards := seg_cards s @ cs\<rparr> else s)
                       (doc st),
              fragments := AList.update frag [] (fragments st)\<rparr>)"

text \<open>
  \<open>parent.insertBefore(card, ref)\<close> and \<open>parent.appendChild(card)\<close> on the list of the
  parent's cards: the card leaves its old place first.
\<close>

definition detach :: "card \<Rightarrow> card list \<Rightarrow> card list" where
  "detach crd cards = filter (\<lambda>c. card_node c \<noteq> card_node crd) cards"

fun insert_at :: "card \<Rightarrow> card \<Rightarrow> card list \<Rightarrow> card list" where
  "insert_at crd ref [] = [crd]"
| "insert_at crd ref (c # cs) =
     (if card_node c = card_node ref then crd # c # cs else c # insert_at crd ref cs)"

definition insertBefore :: "card \<Rightarrow> card \<Rightarrow> card list \<Rightarrow> card list" where
  "insertBefore crd ref cards = insert_at crd ref (detach crd cards)"

definition appendChild :: "card \<Rightarrow> card list \<Rightarrow> card list" where
  "appendChild crd cards = detach crd cards @ [crd]"

text \<open>The \<open>reduce\<close> of \<open>repositionCard\<close>: the index of the last starred card, or \<open>-1\<close>.\<close>

definition lastStarIdx :: "js_set \<Rightarrow> card list \<Rightarrow> int" where
  "lastStarIdx segSet cards =
     foldl (\<lambda>acc (c, idx). if has_card segSet c then int idx else acc) (- 1)
       (zip cards [0 ..< length cards])"

text \<open>The callback of \<open>repositionCard\<close> on the cards of the card's segment.\<close>

definition reposition_cards :: "js_set \<Rightarrow> card \<Rightarrow> card list \<Rightarrow> card list" where
  "reposition_cards segSet crd cards =
     (if has_card segSet crd then
        (case find (\<lambda>c. \<not> has_card segSet c) cards of
           Some firstUn \<Rightarrow> insertBefore crd firstUn cards
         | None \<Rightarrow> appendChild crd cards)
      else
        (case find (\<lambda>cur. orig crd < orig cur)
                (drop (nat (lastStarIdx segSet cards + 1)) cards) of
           Some beforeNode \<Rightarrow> insertBefore crd beforeNode cards
         | None \<Rightarrow> appendChild crd cards))"

text \<open>
  The callback on the state: the card goes to its place in the segment of
  \<open>cardSegmentMap\<close> and leaves every other segment and fragment.
\<close>

definition repositionCard :: "app \<Rightarrow> nat \<Rightarrow> app" where
  "repositionCard st n =
     (case find_card st n of
        None \<Rightarrow> st
      | Some crd \<Rightarrow>
          (case dataset_id crd of
             None \<Rightarrow> st
           | Some cid \<Rightarrow>
               (case map_of (cardSegmentMap st) cid of
                  None \<Rightarrow> st
                | Some sn \<Rightarrow>
                    (case find_segment (doc st) sn of
                       None \<Rightarrow> st
                     | Some seg \<Rightarrow>
                         st\<lparr>doc :=
                              map (\<lambda>s. if seg_node s = sn
                                        then s\<lparr>seg_cards :=
                                               reposition_cards
                                                 (get_set (starredMap st) (dataset_segId seg))
                                                 crd (seg_cards s)\<rparr>
                                        else s\<lparr>seg_cards := detach crd (seg_cards s)\<rparr>)
                                (doc st),
                             fragments := map (\<lambda>(i, cs). (i, detach crd cs)) (fragments st)\<rparr>))))"

text \<open>
  Running the animation-frame callbacks that are pending, first scheduled first; what
  they schedule is pending for the next frame.
\<close>

definition run_task :: "app \<Rightarrow> frame_task \<Rightarrow> app" where
  "run_task st t =
     (case t of
        Reposition n \<Rightarrow> repositionCard st n
      | AppendFragment sn frag \<Rightarrow> appendFragment st sn frag
      | ReorderAll \<Rightarrow> foldl reorderSegment st (new_Set (map snd (cardSegmentMap st))))"

definition run_frame :: "app \<Rightarrow> app" where
  "run_frame st = foldl run_task (st\<lparr>pending := []\<rparr>) (pending st)"

subsection \<open>Executions\<close>

text \<open>
  After \<open>init\<close> the page reacts to clicks on star buttons and to animation frames, in
  any order.
\<close>

datatype event = Toggle toggle_event | Frame

definition step :: "app \<Rightarrow> event \<Rightarrow> app" where
  "step st e = (case e of Toggle ev \<Rightarrow> toggleStar st ev | Frame \<Rightarrow> run_frame st)"

definition run :: "app \<Rightarrow> event list \<Rightarrow> app" where
  "run st es = foldl step st es"

text \<open>
  The guards of \<open>toggleStar\<close> pass: the clicked card has the identifier \<open>cid\<close> and
  \<open>cardSegmentMap\<close> sends it to a segment whose \<open>segId\<close> is \<open>segId\<close>.
\<close>

definition resolves :: "app \<Rightarrow> toggle_event \<Rightarrow> string \<Rightarrow> string \<Rightarrow> bool" where
  "resolves st ev cid segId =
     (case find_card st (ev_target ev) of
        None \<Rightarrow> False
      | Some c \<Rightarrow>
          dataset_id c = Some cid \<and> cid \<noteq> [] \<and>
          (case map_of (cardSegmentMap st) cid of
             None \<Rightarrow> False
           | Some sn \<Rightarrow>
               (case find_segment (doc st) sn of
                  None \<Rightarrow> False
                | Some seg \<Rightarrow> dataset_segId seg = Some segId)))"

section \<open>Invariants of the registry\<close>

text \<open>
  A registry is well formed when no segment has two entries and no set lists a member
  twice: what a \<open>Map\<close> of \<open>Set\<close>s is by construction.
\<close>

definition wf_registry :: "registry \<Rightarrow> bool" where
  "wf_registry m = (distinct (map fst m) \<and> (\<forall>k s. map_of m k = Some s \<longrightarrow> distinct s))"

definition all_sets :: "(js_set \<Rightarrow> bool) \<Rightarrow> registry \<Rightarrow> bool" where
  "all_sets Q m = (\<forall>k s. map_of m k = Some s \<longrightarrow> Q s)"

text \<open>
  The set of a segment across lines 265-280 of \<open>toggleStar\<close>: whether the toggle stops
  at the declined confirmation, and the set it leaves otherwise.
\<close>

definition aborted :: "js_set \<Rightarrow> string \<Rightarrow> bool \<Rightarrow> bool" where
  "aborted segSet cid confirm =
     (\<not> set_has segSet (Str cid) \<and> MAX_STARS \<le> length segSet \<and> \<not> confirm)"

definition toggled :: "js_set \<Rightarrow> string \<Rightarrow> js_set" where
  "toggled segSet cid =
     (let s1 = (if \<not> set_has segSet (Str cid) \<and> MAX_STARS \<le> length segSet then
                  (case set_first segSet of
                     None \<Rightarrow> segSet
                   | Some oldest \<Rightarrow>
                       if js_truthy oldest then set_delete segSet oldest else segSet)
                else segSet)
      in if set_has s1 (Str cid) then set_delete s1 (Str cid) else set_add s1 (Str cid))"

text \<open>
  A set, and a persisted state, within the capacity and free of falsy members (the
  empty string, the number 0, \<open>false\<close>, \<open>null\<close>).
\<close>

definition within_capacity :: "js_set \<Rightarrow> bool" where
  "within_capacity s = (length s \<le> MAX_STARS \<and> list_all js_truthy s)"

definition saved_within_capacity :: "saved \<Rightarrow> bool" where
  "saved_within_capacity sv =
     (case sv of
        NotObject \<Rightarrow> True
      | Entries es \<Rightarrow>
          list_all (\<lambda>(k, v). case v of Ids xs \<Rightarrow> within_capacity (new_Set xs) | NotIterable \<Rightarrow> True) es)"

text \<open>
  A set, and a persisted state, within the capacity whose members are all identifiers
  (non-empty strings): what the page itself writes.
\<close>

definition is_identifier :: "js_value \<Rightarrow> bool" where
  "is_identifier v = (case v of Str s \<Rightarrow> s \<noteq> [] | _ \<Rightarrow> False)"

definition identifiers_within :: "js_set \<Rightarrow> bool" where
  "identifiers_within s = (length s \<le> MAX_STARS \<and> list_all is_identifier s)"

definition saved_identifiers_within :: "saved \<Rightarrow> bool" where
  "saved_identifiers_within sv =
     (case sv of
        NotObject \<Rightarrow> True
      | Entries es \<Rightarrow>
          list_all (\<lambda>(k, v). case v of Ids xs \<Rightarrow> identifiers_within (new_Set xs) | NotIterable \<Rightarrow> True) es)"

text \<open>
  A card, and a segment with its cards, after \<open>setupCards\<close>: it has an identifier,
  the one it had before if it had one.
\<close>

definition keeps_card_id :: "card \<Rightarrow> card \<Rightarrow> bool" where
  "keeps_card_id c c' =
     (card_node c' = card_node c \<and> star_btn c' = star_btn c \<and> truthy (dataset_id c') \<and>
      (truthy (dataset_id c) \<longrightarrow> dataset_id c' = dataset_id c))"

definition keeps_segment_id :: "segment \<Rightarrow> segment \<Rightarrow> bool" where
  "keeps_segment_id seg seg' =
     (seg_node seg' = seg_node seg \<and> truthy (dataset_segId seg') \<and>
      (truthy (dataset_segId seg) \<longrightarrow> dataset_segId seg' = dataset_segId seg) \<and>
      list_all2 keeps_card_id (seg_cards seg) (seg_cards seg'))"

text \<open>
  Cards indexed from position \<open>k\<close> on: each has an identifier and its position as
  original index. A segment is indexed when it has a \<open>segId\<close> and its cards are indexed.
\<close>

fun indexed_from :: "nat \<Rightarrow> card list \<Rightarrow> bool" where
  "indexed_from k [] = True"
| "indexed_from k (c # cs) =
     (truthy (dataset_id c) \<and> dataset_origIndex c = Some k \<and> indexed_from (Suc k) cs)"

definition segment_indexed :: "segment \<Rightarrow> bool" where
  "segment_indexed seg = (truthy (dataset_segId seg) \<and> indexed_from 0 (seg_cards seg))"

subsection \<open>A page for the examples\<close>

text \<open>
  A page with one grid \<open>Tools Grid\<close> whose cards are the given nodes, without
  identifiers, each with a star button; the page of the examples has seven cards.
\<close>

definition plain_button :: button where
  "plain_button = \<lparr>starred_class = False, aria_pressed = None, aria_label = None\<rparr>"

definition plain_card :: "nat \<Rightarrow> card" where
  "plain_card n =
     \<lparr>card_node = n, dataset_id = None, dataset_origIndex = None, star_btn = Some plain_button\<rparr>"

definition grid_page :: "nat list \<Rightarrow> segment list" where
  "grid_page ns =
     [\<lparr>seg_node = 100, attr_id = Some ''Tools Grid'', className = ''card-grid'',
       dataset_segId = None, seg_cards = map plain_card ns\<rparr>]"

definition tools_page :: "segment list" where
  "tools_page = grid_page [1, 2, 3, 4, 5, 6, 7]"

text \<open>The card at position \<open>i\<close> of a grid once \<open>setupCards\<close> has indexed it.\<close>

definition indexed_card :: "nat \<Rightarrow> card" where
  "indexed_card i =
     \<lparr>card_node = i + 1, dataset_id = Some (''card-'' @ show_nat (i + 1)),
      dataset_origIndex = Some i, star_btn = Some plain_button\<rparr>"

definition click :: "nat \<Rightarrow> bool \<Rightarrow> toggle_event" where
  "click n c = \<lparr>ev_target = n, ev_confirm = c\<rparr>"

text \<open>The page after \<open>init\<close> on empty storage and stars on the first five cards.\<close>

definition five_starred :: app where
  "five_starred =
     run (init (OpenrootApp tools_page None))
       [Toggle (click 1 True), Toggle (click 2 True), Toggle (click 3 True),
        Toggle (click 4 True), Toggle (click 5 True)]"

text \<open>What the induction on a run carries for the persisted state.\<close>

definition persisted_ok :: "app \<Rightarrow> bool" where
  "persisted_ok st =
     (wf_registry (starredMap st) \<and> all_sets identifiers_within (starredMap st) \<and>
      saved_identifiers_within (Storage_get (Entries []) (slot st)))"

text \<open>A page whose grid has the identifier \<open>__proto__\<close>.\<close>

definition proto_page :: "segment list" where
  "proto_page =
     [\<lparr>seg_node = 100, attr_id = Some ''__proto__'', className = ''card-grid'',
       dataset_segId = None, seg_cards = map plain_card [1, 2]\<rparr>]"

section \<open>Lemmas\<close>

lemma set_set_add: "set (set_add s x) = insert x (set s)"
  by (auto simp: set_add_def)

lemma distinct_set_add: "distinct s \<Longrightarrow> distinct (set_add s x)"
  by (simp add: set_add_def)

lemma set_set_delete: "set (set_delete s x) = set s - {x}"
  by (auto simp: set_delete_def)

lemma distinct_set_delete: "distinct s \<Longrightarrow> distinct (set_delete s x)"
  by (simp add: set_delete_def distinct_removeAll)

lemma length_set_delete_le: "length (set_delete s x) \<le> length s"
  by (simp add: set_delete_def)

lemma length_set_delete_mem:
  "x \<in> set s \<Longrightarrow> length (set_delete s x) < length s"
  by (simp add: set_delete_def length_removeAll_less)

lemma distinct_foldl_set_add: "distinct acc \<Longrightarrow> distinct (foldl set_add acc xs)"
  by (induction xs arbitrary: acc) (simp_all add: distinct_set_add)

lemma set_foldl_set_add: "set (foldl set_add acc xs) = set acc \<union> set xs"
  by (induction xs arbitrary: acc) (auto simp: set_set_add)

lemma foldl_set_add_distinct: "distinct (acc @ xs) \<Longrightarrow> foldl set_add acc xs = acc @ xs"
proof (induction xs arbitrary: acc)
  case Nil
  then show ?case by simp
next
  case (Cons x xs)
  from Cons.prems have "set_add acc x = acc @ [x]" by (simp add: set_add_def)
  moreover from Cons.prems have "distinct ((acc @ [x]) @ xs)" by simp
  ultimately show ?case using Cons.IH [of "acc @ [x]"] by simp
qed

lemma distinct_new_Set: "distinct (new_Set xs)"
  by (simp add: new_Set_def distinct_foldl_set_add)

lemma set_new_Set: "set (new_Set xs) = set xs"
  by (simp add: new_Set_def set_foldl_set_add)

lemma new_Set_distinct: "distinct s \<Longrightarrow> new_Set s = s"
  using foldl_set_add_distinct [of "[]" s] by (simp add: new_Set_def)

lemma update_absent: "k \<notin> fst ` set al \<Longrightarrow> AList.update k v al = al @ [(k, v)]"
  by (induction al) auto

lemma wf_registry_update:
  "wf_registry m \<Longrightarrow> distinct s \<Longrightarrow> wf_registry (AList.update k s m)"
  by (simp add: wf_registry_def distinct_update update_conv')

lemma wf_registry_Nil: "wf_registry []"
  by (simp add: wf_registry_def)

lemma wf_registry_hydrate: "wf_registry m \<Longrightarrow> wf_registry (hydrate m saved)"
proof (cases saved)
  case NotObject
  assume "wf_registry m"
  with NotObject show ?thesis by (simp add: hydrate_def)
next
  case (Entries es)
  assume "wf_registry m"
  then have "wf_registry
    (foldl (\<lambda>acc (segId, ids). case ids of Ids xs \<Rightarrow> AList.update segId (new_Set xs) acc | NotIterable \<Rightarrow> acc) m es)"
    by (induction es arbitrary: m)
       (auto simp: wf_registry_update distinct_new_Set split: saved_ids.splits)
  with Entries show ?thesis by (simp add: hydrate_def)
qed

lemma all_sets_update: "all_sets Q m \<Longrightarrow> Q s \<Longrightarrow> all_sets Q (AList.update k s m)"
  by (simp add: all_sets_def update_conv')

lemma all_sets_get_set: "all_sets Q m \<Longrightarrow> Q [] \<Longrightarrow> Q (get_set m k)"
  by (auto simp: all_sets_def get_set_def split: option.splits)

lemma all_sets_hydrate:
  assumes "all_sets Q m" and "\<And>xs. Ids xs \<in> snd ` set (case saved of NotObject \<Rightarrow> [] | Entries es \<Rightarrow> es) \<Longrightarrow> Q (new_Set xs)"
  shows "all_sets Q (hydrate m saved)"
proof (cases saved)
  case NotObject
  with assms show ?thesis by (simp add: hydrate_def)
next
  case (Entries es)
  have "all_sets Q m \<Longrightarrow> (\<And>xs. Ids xs \<in> snd ` set es \<Longrightarrow> Q (new_Set xs)) \<Longrightarrow> all_sets Q
    (foldl (\<lambda>acc (segId, ids). case ids of Ids xs \<Rightarrow> AList.update segId (new_Set xs) acc | NotIterable \<Rightarrow> acc) m es)"
  proof (induction es arbitrary: m)
    case Nil
    then show ?case by simp
  next
    case (Cons e es)
    obtain k v where e: "e = (k, v)" by (cases e)
    have "all_sets Q (case v of Ids xs \<Rightarrow> AList.update k (new_Set xs) m | NotIterable \<Rightarrow> m)"
    proof (cases v)
      case (Ids xs)
      with e have "Ids xs \<in> snd ` set (e # es)" by force
      then have "Q (new_Set xs)" by (rule Cons.prems(2))
      with Cons.prems(1) Ids show ?thesis by (simp add: all_sets_update)
    next
      case NotIterable
      with Cons.prems(1) show ?thesis by simp
    qed
    moreover have "\<And>xs. Ids xs \<in> snd ` set es \<Longrightarrow> Q (new_Set xs)"
      using Cons.prems(2) by auto
    ultimately show ?case using Cons.IH e by simp
  qed
  with assms Entries show ?thesis by (simp add: hydrate_def)
qed

text \<open>The registry component of the accumulator of the loop of \<open>setupCards\<close>.\<close>

lemma setup_segment_registry:
  "snd (snd (snd (setup_segment (d, a, csm, m) seg))) = m \<or>
   (\<exists>k. snd (snd (snd (setup_segment (d, a, csm, m) seg))) = AList.update k [] m)"
  by (auto simp: setup_segment_def Let_def split: prod.splits)

lemma foldl_setup_segment_registry:
  assumes "P (snd (snd (snd acc)))" and "\<And>m k. P m \<Longrightarrow> P (AList.update k [] m)"
  shows "P (snd (snd (snd (foldl setup_segment acc segs))))"
  using assms(1)
proof (induction segs arbitrary: acc)
  case Nil
  then show ?case by simp
next
  case (Cons seg segs)
  obtain d a csm m where acc: "acc = (d, a, csm, m)" by (cases acc)
  with Cons.prems have "P m" by simp
  with setup_segment_registry [of d a csm m seg] assms(2)
  have "P (snd (snd (snd (setup_segment acc seg))))" unfolding acc by auto
  from Cons.IH [OF this] show ?case by simp
qed

lemma starredMap_setupCards:
  assumes "P (starredMap st)" and "\<And>m k. P m \<Longrightarrow> P (AList.update k [] m)"
  shows "P (starredMap (setupCards st))"
proof -
  have "P (snd (snd (snd (foldl setup_segment ([], 0, cardSegmentMap st, starredMap st) (doc st)))))"
    by (rule foldl_setup_segment_registry) (simp_all add: assms)
  then show ?thesis
    by (auto simp: setupCards_def split: prod.splits)
qed

lemma starredMap_applyInitialStarState [simp]:
  "starredMap (applyInitialStarState st) = starredMap st"
  by (simp add: applyInitialStarState_def)

lemma starredMap_init:
  assumes "P (starredMap st)"
    and "\<And>m. P m \<Longrightarrow> P (hydrate m (Storage_get (Entries []) (slot st)))"
    and "\<And>m k. P m \<Longrightarrow> P (AList.update k [] m)"
  shows "P (starredMap (init st))"
proof (cases "initialized st")
  case True
  with assms(1) show ?thesis by (simp add: init_def)
next
  case False
  have "P (starredMap (setupCards (st\<lparr>initialized := True,
          starredMap := hydrate (starredMap st) (Storage_get (Entries []) (slot st))\<rparr>)))"
    by (rule starredMap_setupCards) (simp_all add: assms)
  with False show ?thesis by (simp add: init_def Let_def)
qed

subsection \<open>The set of a segment across a toggle\<close>

lemma get_set_ensure:
  "get_set (if map_of m k = None then AList.update k [] m else m) (Some k) = get_set m (Some k)"
  by (simp add: get_set_def update_conv' split: option.splits)

lemma starredMap_toggle_resolved:
  "starredMap (toggle_resolved st ev cid segId) =
     (if aborted (get_set (starredMap st) (Some segId)) cid (ev_confirm ev) then starredMap st
      else AList.update segId (toggled (get_set (starredMap st) (Some segId)) cid) (starredMap st))"
proof (cases "map_of (starredMap st) segId")
  case None
  then have "get_set (starredMap st) (Some segId) = []" by (simp add: get_set_def)
  moreover have "get_set (AList.update segId [] (starredMap st)) (Some segId) = []"
    by (simp add: get_set_def update_conv')
  ultimately show ?thesis using None
    by (simp add: toggle_resolved_def Let_def aborted_def toggled_def MAX_STARS_def set_has_def)
next
  case (Some s)
  then show ?thesis
    by (simp add: toggle_resolved_def Let_def aborted_def toggled_def)
qed

lemma toggleStar_cases:
  "(\<exists>cid segId. resolves st ev cid segId \<and> toggleStar st ev = toggle_resolved st ev cid segId)
   \<or> toggleStar st ev = st"
  by (auto simp: toggleStar_def resolves_def split: option.splits)

lemma toggleStar_resolves:
  "resolves st ev cid segId \<Longrightarrow> toggleStar st ev = toggle_resolved st ev cid segId"
  by (auto simp: toggleStar_def resolves_def split: option.splits)

lemma resolves_nonempty: "resolves st ev cid segId \<Longrightarrow> cid \<noteq> []"
  by (auto simp: resolves_def split: option.splits)

lemma distinct_toggled: "distinct s \<Longrightarrow> distinct (toggled s cid)"
  by (auto simp: toggled_def Let_def distinct_set_add distinct_set_delete split: option.splits)

lemma toggled_keeps:
  assumes "length s \<le> MAX_STARS" and "list_all Q s" and "Q (Str cid)"
    and "\<And>v. Q v \<Longrightarrow> js_truthy v"
  shows "length (toggled s cid) \<le> MAX_STARS \<and> list_all Q (toggled s cid)"
proof (cases "Str cid \<in> set s")
  case True
  then have "toggled s cid = set_delete s (Str cid)"
    by (simp add: toggled_def set_has_def)
  with assms(1,2) show ?thesis
    using length_set_delete_le [of s "Str cid"] by (auto simp: set_set_delete list_all_iff)
next
  case False
  show ?thesis
  proof (cases "MAX_STARS \<le> length s")
    case full: True
    then obtain x rest where s: "s = x # rest" by (cases s) (auto simp: MAX_STARS_def)
    with assms(2) have "Q x" by simp
    then have x: "js_truthy x" by (rule assms(4))
    from s have "x \<in> set s" by simp
    then have "length (set_delete s x) < length s"
      by (rule length_set_delete_mem)
    moreover from False have "Str cid \<notin> set (set_delete s x)" by (simp add: set_set_delete)
    moreover from False full s x
    have "toggled s cid = set_add (set_delete s x) (Str cid)"
      by (simp add: toggled_def set_has_def set_first_def set_set_delete)
    ultimately show ?thesis using assms(1,2,3)
      by (auto simp: set_add_def set_set_delete list_all_iff)
  next
    case False
    with \<open>Str cid \<notin> set s\<close> have "toggled s cid = s @ [Str cid]"
      by (simp add: toggled_def set_has_def set_add_def)
    with False assms(1,2,3) show ?thesis by simp
  qed
qed

lemma toggled_evicts:
  assumes "distinct (x # rest)" and "js_truthy x" and "MAX_STARS \<le> length (x # rest)"
    and "Str cid \<notin> set (x # rest)"
  shows "toggled (x # rest) cid = rest @ [Str cid]"
proof -
  from assms(1) have "set_delete (x # rest) x = rest"
    by (simp add: set_delete_def)
  with assms show ?thesis
    by (simp add: toggled_def set_has_def set_first_def set_add_def)
qed


lemma is_identifier_truthy: "is_identifier v \<Longrightarrow> js_truthy v"
  by (cases v) (simp_all add: is_identifier_def js_truthy_def)

lemma starredMap_repositionCard [simp]: "starredMap (repositionCard st n) = starredMap st"
  by (simp add: repositionCard_def split: option.splits)

lemma starredMap_reorderSegment [simp]: "starredMap (reorderSegment st sn) = starredMap st"
  by (simp add: reorderSegment_def Let_def split: option.splits)

lemma starredMap_foldl_reorder [simp]: "starredMap (foldl reorderSegment st sns) = starredMap st"
  by (induction sns arbitrary: st) simp_all

lemma starredMap_appendFragment [simp]: "starredMap (appendFragment st sn frag) = starredMap st"
  by (simp add: appendFragment_def split: option.splits)

lemma starredMap_run_task [simp]: "starredMap (run_task st t) = starredMap st"
  by (cases t) (simp_all add: run_task_def)

lemma starredMap_foldl_run_task: "starredMap (foldl run_task st ts) = starredMap st"
  by (induction ts arbitrary: st) simp_all

lemma starredMap_run_frame [simp]: "starredMap (run_frame st) = starredMap st"
  by (simp add: run_frame_def starredMap_foldl_run_task)

lemma wf_registry_toggleStar:
  assumes "wf_registry (starredMap st)"
  shows "wf_registry (starredMap (toggleStar st ev))"
proof -
  from assms have "all_sets distinct (starredMap st)"
    by (simp add: wf_registry_def all_sets_def)
  then have "distinct (get_set (starredMap st) (Some k))" for k
    by (rule all_sets_get_set) simp
  then have "wf_registry (starredMap (toggle_resolved st ev cid segId))" for cid segId
    using assms by (simp add: starredMap_toggle_resolved wf_registry_update distinct_toggled)
  with toggleStar_cases [of st ev] assms show ?thesis by auto
qed


lemma identifiers_toggleStar:
  assumes "all_sets identifiers_within (starredMap st)"
  shows "all_sets identifiers_within (starredMap (toggleStar st ev))"
proof -
  have w: "identifiers_within (get_set (starredMap st) (Some k))" for k
    using assms by (rule all_sets_get_set) (simp add: identifiers_within_def)
  have "all_sets identifiers_within (starredMap (toggle_resolved st ev cid segId))"
    if "cid \<noteq> []" for cid segId
    using assms w [of segId] that
      toggled_keeps [of "get_set (starredMap st) (Some segId)" is_identifier cid]
    by (simp add: starredMap_toggle_resolved all_sets_update identifiers_within_def
        is_identifier_def is_identifier_truthy)
  with toggleStar_cases [of st ev] assms show ?thesis
    by (auto dest: resolves_nonempty)
qed

lemma run_invariant:
  assumes "P (starredMap st)" and "\<And>s ev. P (starredMap s) \<Longrightarrow> P (starredMap (toggleStar s ev))"
  shows "P (starredMap (run st es))"
  using assms(1) unfolding run_def
proof (induction es arbitrary: st)
  case Nil
  then show ?case by simp
next
  case (Cons e es)
  have "P (starredMap (step st e))"
    using Cons.prems assms(2) by (cases e) (simp_all add: step_def)
  from Cons.IH [OF this] show ?case by simp
qed

lemma wf_registry_init: "wf_registry (starredMap (init (OpenrootApp d sl)))"
  by (rule starredMap_init)
     (simp_all add: OpenrootApp_def wf_registry_Nil wf_registry_hydrate wf_registry_update)

lemma wf_registry_run: "wf_registry (starredMap (run (init (OpenrootApp d sl)) es))"
  by (rule run_invariant) (simp_all add: wf_registry_init wf_registry_toggleStar)


lemma identifiers_init:
  assumes "saved_identifiers_within (Storage_get (Entries []) sl)"
  shows "all_sets identifiers_within (starredMap (init (OpenrootApp d sl)))"
proof (rule starredMap_init)
  show "all_sets identifiers_within (starredMap (OpenrootApp d sl))"
    by (simp add: OpenrootApp_def all_sets_def)
next
  fix m assume "all_sets identifiers_within m"
  then show "all_sets identifiers_within (hydrate m (Storage_get (Entries []) (slot (OpenrootApp d sl))))"
  proof (rule all_sets_hydrate)
    fix xs
    assume "Ids xs \<in> snd ` set (case Storage_get (Entries []) (slot (OpenrootApp d sl)) of
               NotObject \<Rightarrow> [] | Entries es \<Rightarrow> es)"
    with assms show "identifiers_within (new_Set xs)"
      by (fastforce simp: saved_identifiers_within_def OpenrootApp_def list_all_iff
          split: saved.splits)
  qed
next
  fix m :: registry and k
  assume "all_sets identifiers_within m"
  then show "all_sets identifiers_within (AList.update k [] m)"
    by (rule all_sets_update) (simp add: identifiers_within_def)
qed

subsection \<open>The document across a toggle\<close>

lemma others_on_button_in:
  "filter (\<lambda>c. card_node c \<noteq> n) (on_button_in n f cs) = filter (\<lambda>c. card_node c \<noteq> n) cs"
  unfolding on_button_in_def by (induction cs) auto

lemma others_on_button:
  "map (\<lambda>seg. filter (\<lambda>c. card_node c \<noteq> n) (seg_cards seg)) (on_button n f d)
     = map (\<lambda>seg. filter (\<lambda>c. card_node c \<noteq> n) (seg_cards seg)) d"
  by (simp add: on_button_def comp_def others_on_button_in)

lemma others_on_button_detached:
  "map (\<lambda>(i, cs). (i, filter (\<lambda>c. card_node c \<noteq> n) cs)) (on_button_detached n f fs)
     = map (\<lambda>(i, cs). (i, filter (\<lambda>c. card_node c \<noteq> n) cs)) fs"
  by (induction fs) (auto simp: on_button_detached_def others_on_button_in)

lemma doc_toggle_resolved:
  "(doc (toggle_resolved st ev cid segId) = doc st \<and>
    fragments (toggle_resolved st ev cid segId) = fragments st) \<or>
   (\<exists>b. doc (toggle_resolved st ev cid segId)
          = on_button (ev_target ev) (\<lambda>btn. updateStarAttr btn b) (doc st) \<and>
        fragments (toggle_resolved st ev cid segId)
          = on_button_detached (ev_target ev) (\<lambda>btn. updateStarAttr btn b) (fragments st))"
  by (auto simp: toggle_resolved_def Let_def)

lemma doc_toggleStar:
  "(doc (toggleStar st ev) = doc st \<and> fragments (toggleStar st ev) = fragments st) \<or>
   (\<exists>b. doc (toggleStar st ev) = on_button (ev_target ev) (\<lambda>btn. updateStarAttr btn b) (doc st) \<and>
        fragments (toggleStar st ev)
          = on_button_detached (ev_target ev) (\<lambda>btn. updateStarAttr btn b) (fragments st))"
proof -
  from toggleStar_cases [of st ev] show ?thesis
  proof
    assume "\<exists>cid segId. resolves st ev cid segId \<and> toggleStar st ev = toggle_resolved st ev cid segId"
    then obtain cid segId where "toggleStar st ev = toggle_resolved st ev cid segId" by blast
    with doc_toggle_resolved [of st ev cid segId] show ?thesis by simp
  next
    assume "toggleStar st ev = st"
    then show ?thesis by simp
  qed
qed

subsection \<open>Identity resolution\<close>

lemma decodeURIComponent_plain: "CHR ''%'' \<notin> set t \<Longrightarrow> decodeURIComponent t = Inr t"
  by (induction t) auto

lemma persist_uid_nonempty:
  assumes "u \<noteq> []"
  shows "persist_uid e u =
     \<lparr>USER_UID = u, cache_after = Some u, cache_written = (cache_slot e \<noteq> Some u)\<rparr>"
  using assms
  by (cases "cache_slot e") (auto simp: persist_uid_def cachedUid_def js_or_def truthy_def)

lemma first_defined_nonempty: "first_defined vs = Some u \<Longrightarrow> u \<noteq> []"
  by (induction vs) (auto simp: truthy_def split: if_splits)

lemma first_defined_append:
  "first_defined (xs @ ys) =
     (case first_defined xs of Some u \<Rightarrow> Some u | None \<Rightarrow> first_defined ys)"
  by (induction xs) (auto simp: truthy_def split: option.splits)

lemma uidFromUrl_first: "uidFromUrl e = first_defined [url_uid e, url_user e]"
  by (simp add: uidFromUrl_def js_or_def)

lemma uidFromMainSite_first: "uidFromMainSite e = first_defined [main_local e, main_session e]"
  by (simp add: uidFromMainSite_def js_or_def)

lemma cachedUid_first: "cachedUid e = first_defined [cache_slot e]"
  by (simp add: cachedUid_def js_or_def)

text \<open>
  The code follows the resolution order of the specification whenever the query
  parameter in effect has no percent sign, so that decoding it once more changes
  nothing: then the identity is the first defined value, the cache slot holds it
  afterwards, and the slot is written if and only if it held another value.
\<close>

lemma resolve_uid_without_percent:
  assumes "percent_free (first_defined [url_uid e, url_user e])"
  shows "resolve_uid e =
     Inr \<lparr>USER_UID = spec_identity e, cache_after = Some (spec_identity e),
          cache_written = (cache_slot e \<noteq> Some (spec_identity e))\<rparr>"
proof -
  let ?url = "first_defined [url_uid e, url_user e]"
  let ?main = "first_defined [main_local e, main_session e]"
  let ?cache = "first_defined [cache_slot e]"
  have all: "first_defined [url_uid e, url_user e, main_local e, main_session e, cache_slot e]
      = (case ?url of Some u \<Rightarrow> Some u
         | None \<Rightarrow> (case ?main of Some u \<Rightarrow> Some u | None \<Rightarrow> ?cache))"
    using first_defined_append [of "[url_uid e, url_user e]"
            "[main_local e, main_session e, cache_slot e]"]
      first_defined_append [of "[main_local e, main_session e]" "[cache_slot e]"]
    by (cases "first_defined [url_uid e, url_user e]") (simp_all del: first_defined.simps)
  have "\<exists>u. u \<noteq> [] \<and> spec_identity e = u \<and> resolve_uid e = Inr (persist_uid e u)"
  proof (cases ?url)
    case (Some t)
    with assms have "decodeURIComponent t = Inr t"
      by (simp add: percent_free_def decodeURIComponent_plain del: first_defined.simps)
    with Some have "resolve_uid e = Inr (persist_uid e t)"
      by (simp only: resolve_uid_def uidFromUrl_first option.case sum.case)
    moreover from Some all have "spec_identity e = t"
      by (simp only: spec_identity_def option.case)
    moreover from Some have "t \<noteq> []" by (rule first_defined_nonempty)
    ultimately show ?thesis by simp
  next
    case nourl: None
    show ?thesis
    proof (cases ?main)
      case (Some m)
      with nourl have "resolve_uid e = Inr (persist_uid e m)"
        by (simp only: resolve_uid_def uidFromUrl_first uidFromMainSite_first option.case)
      moreover from nourl Some all have "spec_identity e = m"
        by (simp only: spec_identity_def option.case)
      moreover from Some have "m \<noteq> []" by (rule first_defined_nonempty)
      ultimately show ?thesis by simp
    next
      case nomain: None
      show ?thesis
      proof (cases ?cache)
        case (Some c)
        with nourl nomain have "resolve_uid e = Inr (persist_uid e c)"
          by (simp only: resolve_uid_def uidFromUrl_first uidFromMainSite_first
              cachedUid_first option.case)
        moreover from nourl nomain Some all have "spec_identity e = c"
          by (simp only: spec_identity_def option.case)
        moreover from Some have "c \<noteq> []" by (rule first_defined_nonempty)
        ultimately show ?thesis by simp
      next
        case None
        with nourl nomain have "resolve_uid e = Inr (persist_uid e ''guest_user'')"
          by (simp only: resolve_uid_def uidFromUrl_first uidFromMainSite_first
              cachedUid_first option.case)
        moreover from nourl nomain None all have "spec_identity e = ''guest_user''"
          by (simp only: spec_identity_def option.case)
        ultimately show ?thesis by simp
      qed
    qed
  qed
  then show ?thesis by (auto simp: persist_uid_nonempty)
qed

subsection \<open>The object \<open>toSave\<close> and the round trip through the slot\<close>

lemma map_of_obj_assign:
  "map_of (obj_assign k' v obj) k =
     (if k' \<noteq> ''__proto__'' \<and> k = k' then Some v else map_of obj k)"
  by (simp add: obj_assign_def update_conv')

lemma distinct_obj_assign:
  "distinct (map fst obj) \<Longrightarrow> distinct (map fst (obj_assign k v obj))"
  by (simp add: obj_assign_def distinct_update)

lemma toSave_of_snoc: "toSave_of (m @ [(k, s)]) = obj_assign k s (toSave_of m)"
  by (simp add: toSave_of_def Array_from_def)

lemma distinct_toSave_of: "distinct (map fst (toSave_of m))"
proof (induction m rule: rev_induct)
  case Nil
  show ?case by (simp add: toSave_of_def)
next
  case (snoc x m)
  obtain k s where x: "x = (k, s)" by (cases x)
  from snoc show ?case unfolding x toSave_of_snoc by (rule distinct_obj_assign)
qed

lemma map_of_toSave_of:
  assumes "distinct (map fst m)"
  shows "map_of (toSave_of m) k = (if k = ''__proto__'' then None else map_of m k)"
  using assms
proof (induction m rule: rev_induct)
  case Nil
  show ?case by (simp add: toSave_of_def)
next
  case (snoc x m)
  obtain k' s where x: "x = (k', s)" by (cases x)
  from snoc.prems x have d: "distinct (map fst m)" and n: "k' \<notin> fst ` set m" by auto
  from n have "map_of m k' = None" by (simp add: map_of_eq_None_iff)
  then have a: "map_of (m @ [(k', s)]) k = (if k = k' then Some s else map_of m k)"
    by (auto simp: map_add_def split: option.splits)
  have b: "map_of (toSave_of (m @ [(k', s)])) k =
      (if k' \<noteq> ''__proto__'' \<and> k = k' then Some s else map_of (toSave_of m) k)"
    by (simp only: toSave_of_snoc map_of_obj_assign)
  show ?case
    unfolding x a b snoc.IH [OF d] by (cases "k = k'"; cases "k = ''__proto__''") simp_all
qed

lemma set_own_entries: "set (own_entries obj) = set obj"
  by (auto simp: own_entries_def)

lemma distinct_own_entries:
  assumes "distinct (map fst obj)"
  shows "distinct (map fst (own_entries obj))"
proof -
  from assms have d: "distinct obj" and i: "inj_on fst (set obj)"
    by (simp_all add: distinct_map)
  have "distinct (own_entries obj)"
    using d by (auto simp: own_entries_def)
  moreover from i have "inj_on fst (set (own_entries obj))"
    by (simp add: set_own_entries)
  ultimately show ?thesis by (simp add: distinct_map)
qed

lemma map_of_own_entries:
  assumes "distinct (map fst obj)"
  shows "map_of (own_entries obj) = map_of obj"
  using map_of_inject_set [OF distinct_own_entries [OF assms] assms]
  by (simp add: set_own_entries)

lemma map_of_hydrate_fold:
  assumes "distinct (map fst es)"
  shows "map_of (foldl (\<lambda>acc (segId, ids).
                   case ids of
                     Ids xs \<Rightarrow> AList.update segId (new_Set xs) acc
                   | NotIterable \<Rightarrow> acc)
            acc (map (\<lambda>(k, xs). (k, Ids (map through_JSON xs))) es)) k
       = (case map_of es k of
            Some xs \<Rightarrow> Some (new_Set (map through_JSON xs))
          | None \<Rightarrow> map_of acc k)"
  using assms
proof (induction es arbitrary: acc)
  case Nil
  show ?case by simp
next
  case (Cons e es)
  obtain k' xs where e: "e = (k', xs)" by (cases e)
  from Cons.prems e have d: "distinct (map fst es)" and n: "k' \<notin> fst ` set es" by auto
  from n have none: "map_of es k' = None" by (simp add: map_of_eq_None_iff)
  show ?case
    unfolding e using Cons.IH [OF d, of "AList.update k' (new_Set (map through_JSON xs)) acc"] none
    by (simp add: update_conv' split: option.splits)
qed

lemma map_of_hydrate_snapshot:
  assumes "distinct (map fst m)"
  shows "map_of (hydrate [] (snapshot m)) k =
     (if k = ''__proto__'' then None
      else map_option (\<lambda>s. new_Set (map through_JSON s)) (map_of m k))"
proof -
  have "map_of (hydrate [] (snapshot m)) k =
      (case map_of (own_entries (toSave_of m)) k of
         Some xs \<Rightarrow> Some (new_Set (map through_JSON xs))
       | None \<Rightarrow> None)"
    using map_of_hydrate_fold [OF distinct_own_entries [OF distinct_toSave_of [of m]], of "[]" k]
    by (simp add: hydrate_def snapshot_def stored_def split: option.splits)
  then show ?thesis
    by (simp add: map_of_own_entries [OF distinct_toSave_of] map_of_toSave_of [OF assms]
        split: option.splits)
qed

lemma through_JSON_stable: "json_stable v \<Longrightarrow> through_JSON v = v"
  by (cases v) (auto simp: json_stable_def through_JSON_def split: js_number.splits)

lemma map_through_JSON_stable: "list_all json_stable s \<Longrightarrow> map through_JSON s = s"
  by (induction s) (simp_all add: through_JSON_stable)

lemma is_identifier_stable: "is_identifier v \<Longrightarrow> json_stable v"
  by (cases v) (simp_all add: is_identifier_def json_stable_def)

text \<open>
  The round trip of one segment: the set of a segment other than \<open>__proto__\<close> whose
  members come back from JSON as they were is read back as it was.
\<close>

lemma roundtrip_segment:
  assumes "wf_registry m" and "segId \<noteq> ''__proto__''"
    and "list_all json_stable (get_set m (Some segId))"
  shows "map_of (hydrate [] (snapshot m)) segId = map_of m segId"
proof (cases "map_of m segId")
  case None
  with assms(1,2) show ?thesis by (simp add: map_of_hydrate_snapshot wf_registry_def)
next
  case (Some s)
  with assms(1) have "distinct s" unfolding wf_registry_def by blast
  moreover from Some assms(3) have "map through_JSON s = s"
    by (simp add: get_set_def map_through_JSON_stable)
  ultimately have "new_Set (map through_JSON s) = s" by (simp add: new_Set_distinct)
  with Some assms(1,2) show ?thesis by (simp add: map_of_hydrate_snapshot wf_registry_def)
qed

subsection \<open>The full reorder\<close>

lemma split_cards_foldl:
  "foldl (\<lambda>(starred, unstarred) c.
              if is_starred segSet c then (starred @ [c], unstarred)
              else (starred, unstarred @ [c])) (a, b) cards
   = (a @ filter (is_starred segSet) cards, b @ filter (\<lambda>c. \<not> is_starred segSet c) cards)"
  by (induction cards arbitrary: a b) simp_all

lemma split_cards_filter:
  "split_cards segSet cards
     = (filter (is_starred segSet) cards, filter (\<lambda>c. \<not> is_starred segSet c) cards)"
  by (simp add: split_cards_def split_cards_foldl)

lemma is_starred_set: "set s' = set s \<Longrightarrow> is_starred s' = is_starred s"
  by (rule ext) (simp add: is_starred_def set_has_def split: option.splits)

subsection \<open>The incremental reposition\<close>

lemma lastStarIdx_snoc:
  "lastStarIdx segSet (xs @ [x])
     = (if has_card segSet x then int (length xs) else lastStarIdx segSet xs)"
proof -
  have "zip (xs @ [x]) [0 ..< length (xs @ [x])] = zip xs [0 ..< length xs] @ [(x, length xs)]"
    by simp
  then show ?thesis by (simp add: lastStarIdx_def)
qed

lemma lastStarIdx_Nil: "lastStarIdx segSet [] = - 1"
  by (simp add: lastStarIdx_def)

lemma lastStarIdx_bounds:
  "- 1 \<le> lastStarIdx segSet xs \<and> lastStarIdx segSet xs < int (length xs)"
  by (induction xs rule: rev_induct) (auto simp: lastStarIdx_snoc lastStarIdx_Nil)

text \<open>The cards after the last starred one are the longest unstarred suffix.\<close>

lemma drop_lastStarIdx:
  "drop (nat (lastStarIdx segSet xs + 1)) xs
     = rev (takeWhile (\<lambda>c. \<not> has_card segSet c) (rev xs))"
proof (induction xs rule: rev_induct)
  case Nil
  then show ?case by simp
next
  case (snoc x xs)
  show ?case
  proof (cases "has_card segSet x")
    case True
    then show ?thesis by (simp add: lastStarIdx_snoc)
  next
    case False
    from lastStarIdx_bounds [of segSet xs]
    have "nat (lastStarIdx segSet xs + 1) \<le> length xs" by linarith
    with False snoc show ?thesis by (simp add: lastStarIdx_snoc)
  qed
qed

lemma unstarred_suffix_unique:
  assumes "xs = ahead @ behind" and "ahead = [] \<or> P (last ahead)"
    and "\<forall>c \<in> set behind. \<not> P c"
  shows "rev (takeWhile (\<lambda>c. \<not> P c) (rev xs)) = behind"
proof -
  from assms(2) have "takeWhile (\<lambda>c. \<not> P c) (rev ahead) = []"
    by (cases ahead rule: rev_cases) auto
  moreover have "takeWhile (\<lambda>c. \<not> P c) (rev behind @ rev ahead)
      = rev behind @ takeWhile (\<lambda>c. \<not> P c) (rev ahead)"
    by (rule takeWhile_append2) (use assms(3) in auto)
  ultimately have "takeWhile (\<lambda>c. \<not> P c) (rev xs) = rev behind"
    using assms(1) by simp
  then show ?thesis by simp
qed

lemma takeWhile_filter_commute:
  "\<forall>c \<in> set xs. \<not> R c \<longrightarrow> Q c \<Longrightarrow> takeWhile Q (filter R xs) = filter R (takeWhile Q xs)"
  by (induction xs) auto

lemma find_filter_skip:
  "\<forall>c \<in> set xs. \<not> R c \<longrightarrow> \<not> T c \<Longrightarrow> find T (filter R xs) = find T xs"
  by (induction xs) auto

lemma find_None_all: "find T xs = None \<Longrightarrow> \<forall>c \<in> set xs. \<not> T c"
  by (induction xs) (auto split: if_splits)

lemma find_Some_split:
  "find T xs = Some b \<Longrightarrow>
     T b \<and> b \<in> set xs \<and> dropWhile (\<lambda>c. \<not> T c) xs = b # tl (dropWhile (\<lambda>c. \<not> T c) xs)"
  by (induction xs) (auto split: if_splits)

lemma insert_at_found:
  "\<forall>c \<in> set pre. card_node c \<noteq> card_node b \<Longrightarrow>
     insert_at crd b (pre @ b # post) = pre @ crd # b # post"
  by (induction pre) auto

lemma distinct_map_before:
  assumes "distinct (map f (xs @ b # ys))"
  shows "\<forall>c \<in> set xs. f c \<noteq> f b"
proof
  fix c assume "c \<in> set xs"
  then have "f c \<in> f ` set xs" by simp
  moreover from assms have "f b \<notin> f ` set xs" by simp
  ultimately show "f c \<noteq> f b" by metis
qed

subsection \<open>What the toggles persist\<close>

lemma entry_of_snapshot:
  assumes "distinct (map fst m)" and "(k, xs) \<in> set (own_entries (toSave_of m))"
  shows "map_of m k = Some xs"
proof -
  from assms(2) have "(k, xs) \<in> set (toSave_of m)" by (simp add: set_own_entries)
  then have "map_of (toSave_of m) k = Some xs"
    using distinct_toSave_of [of m] by simp
  then show ?thesis
    by (simp add: map_of_toSave_of [OF assms(1)] split: if_splits)
qed

lemma saved_identifiers_within_snapshot:
  assumes "wf_registry m" and "all_sets identifiers_within m"
  shows "saved_identifiers_within (snapshot m)"
proof -
  from assms(1) have d: "distinct (map fst m)" by (simp add: wf_registry_def)
  have "identifiers_within (new_Set (map through_JSON xs))"
    if "(k, xs) \<in> set (own_entries (toSave_of m))" for k xs
  proof -
    from d that have "map_of m k = Some xs" by (rule entry_of_snapshot)
    with assms have "distinct xs" and w: "identifiers_within xs"
      by (auto simp: wf_registry_def all_sets_def)
    from w have "list_all json_stable xs"
      by (auto simp: identifiers_within_def list_all_iff is_identifier_stable)
    then have "map through_JSON xs = xs" by (rule map_through_JSON_stable)
    with \<open>distinct xs\<close> w show ?thesis by (simp add: new_Set_distinct)
  qed
  then show ?thesis
    by (auto simp: saved_identifiers_within_def snapshot_def stored_def list_all_iff)
qed

lemma slot_toggle_resolved:
  "slot (toggle_resolved st ev cid segId) = slot st \<or>
   slot (toggle_resolved st ev cid segId) = Some (snapshot (starredMap (toggle_resolved st ev cid segId)))"
  by (simp add: toggle_resolved_def Let_def snapshot_def)

lemma slot_toggleStar:
  "slot (toggleStar st ev) = slot st \<or>
   slot (toggleStar st ev) = Some (snapshot (starredMap (toggleStar st ev)))"
proof -
  from toggleStar_cases [of st ev] show ?thesis
  proof
    assume "\<exists>cid segId. resolves st ev cid segId \<and> toggleStar st ev = toggle_resolved st ev cid segId"
    then obtain cid segId where "toggleStar st ev = toggle_resolved st ev cid segId" by blast
    with slot_toggle_resolved [of st ev cid segId] show ?thesis by simp
  next
    assume "toggleStar st ev = st"
    then show ?thesis by simp
  qed
qed

lemma slot_repositionCard [simp]: "slot (repositionCard st n) = slot st"
  by (simp add: repositionCard_def split: option.splits)

lemma slot_reorderSegment [simp]: "slot (reorderSegment st sn) = slot st"
  by (simp add: reorderSegment_def Let_def split: option.splits)

lemma slot_foldl_reorder [simp]: "slot (foldl reorderSegment st sns) = slot st"
  by (induction sns arbitrary: st) simp_all

lemma slot_appendFragment [simp]: "slot (appendFragment st sn frag) = slot st"
  by (simp add: appendFragment_def split: option.splits)

lemma slot_run_task [simp]: "slot (run_task st t) = slot st"
  by (cases t) (simp_all add: run_task_def)

lemma slot_foldl_run_task: "slot (foldl run_task st ts) = slot st"
  by (induction ts arbitrary: st) simp_all

lemma slot_run_frame [simp]: "slot (run_frame st) = slot st"
  by (simp add: run_frame_def slot_foldl_run_task)

lemma slot_setupCards [simp]: "slot (setupCards st) = slot st"
  by (simp add: setupCards_def split: prod.splits)

lemma slot_init [simp]: "slot (init st) = slot st"
  by (simp add: init_def Let_def applyInitialStarState_def)

lemma persisted_ok_step:
  assumes "persisted_ok st"
  shows "persisted_ok (step st e)"
proof (cases e)
  case (Toggle ev)
  from assms have w: "wf_registry (starredMap (toggleStar st ev))"
    and c: "all_sets identifiers_within (starredMap (toggleStar st ev))"
    by (simp_all add: persisted_ok_def wf_registry_toggleStar identifiers_toggleStar)
  from slot_toggleStar [of st ev]
  have "saved_identifiers_within (Storage_get (Entries []) (slot (toggleStar st ev)))"
  proof
    assume "slot (toggleStar st ev) = slot st"
    with assms show ?thesis by (simp add: persisted_ok_def)
  next
    assume "slot (toggleStar st ev) = Some (snapshot (starredMap (toggleStar st ev)))"
    with saved_identifiers_within_snapshot [OF w c] show ?thesis by (simp add: Storage_get_def)
  qed
  with w c Toggle show ?thesis by (simp add: persisted_ok_def step_def)
next
  case Frame
  with assms show ?thesis by (simp add: persisted_ok_def step_def)
qed

lemma persisted_ok_run: "persisted_ok st \<Longrightarrow> persisted_ok (run st es)"
  unfolding run_def by (induction es arbitrary: st) (simp_all add: persisted_ok_step)

text \<open>
  When every list in the slot holds at most \<open>MAX_STARS\<close> distinct identifiers (non-empty
  strings), so does every list the toggles write: the condition carries over from one
  page load to the next. Such a slot is within the capacity and free of falsy members.
\<close>

lemma persisted_identifiers_stay_within_capacity:
  assumes "saved_identifiers_within (Storage_get (Entries []) sl)"
  shows "saved_identifiers_within
           (Storage_get (Entries []) (slot (run (init (OpenrootApp d sl)) es)))"
proof -
  have "slot (init (OpenrootApp d sl)) = sl" by (simp add: OpenrootApp_def)
  with assms have "persisted_ok (init (OpenrootApp d sl))"
    by (simp add: persisted_ok_def wf_registry_init identifiers_init)
  then have "persisted_ok (run (init (OpenrootApp d sl)) es)" by (rule persisted_ok_run)
  then show ?thesis by (simp add: persisted_ok_def)
qed

lemma identifiers_within_capacity: "identifiers_within s \<Longrightarrow> within_capacity s"
  by (auto simp: identifiers_within_def within_capacity_def list_all_iff is_identifier_truthy)

lemma saved_identifiers_within_capacity:
  "saved_identifiers_within sv \<Longrightarrow> saved_within_capacity sv"
  by (cases sv)
     (auto simp: saved_identifiers_within_def saved_within_capacity_def list_all_iff
        identifiers_within_capacity split: saved_ids.splits)

subsection \<open>The identifiers across \<open>setupCards\<close>\<close>

lemma show_nat_nonempty: "show_nat n \<noteq> []"
  by (subst show_nat.simps) simp

lemma or_default_truthy: "truthy v \<Longrightarrow> Some (or_default v d) = v"
  by (cases v) (simp_all add: truthy_def or_default_def)

lemma index_card_keeps:
  "\<exists>c' a' csm'. index_card sn (acc, a, csm) c = (acc @ [c'], a', csm') \<and> keeps_card_id c c'"
  by (auto simp: index_card_def Let_def keeps_card_id_def or_default_def truthy_def
      show_nat_nonempty split: option.splits)

lemma foldl_index_card_keeps:
  "\<exists>cs' a' csm'. foldl (index_card sn) (acc, a, csm) cs = (acc @ cs', a', csm') \<and>
     list_all2 keeps_card_id cs cs'"
proof (induction cs arbitrary: acc a csm)
  case Nil
  then show ?case by simp
next
  case (Cons c cs)
  from index_card_keeps [of sn acc a csm c] obtain c' a1 csm1
    where 1: "index_card sn (acc, a, csm) c = (acc @ [c'], a1, csm1)" and k: "keeps_card_id c c'"
    by blast
  from Cons.IH [of "acc @ [c']" a1 csm1] obtain cs' a2 csm2
    where 2: "foldl (index_card sn) (acc @ [c'], a1, csm1) cs = ((acc @ [c']) @ cs', a2, csm2)"
      and ks: "list_all2 keeps_card_id cs cs'"
    by blast
  from 1 2 have "foldl (index_card sn) (acc, a, csm) (c # cs) = (acc @ (c' # cs'), a2, csm2)"
    by simp
  moreover from k ks have "list_all2 keeps_card_id (c # cs) (c' # cs')" by simp
  ultimately show ?case by blast
qed

lemma derive_segId_nonempty: "derive_segId seg \<noteq> []"
proof -
  have l: "or_default v d \<noteq> []" if "d \<noteq> []" for v d
    using that by (cases v) (simp_all add: or_default_def)
  have r: "replace_ws s \<noteq> []" if "s \<noteq> []" for s
    using that by (cases s) simp_all
  show ?thesis
    by (simp add: derive_segId_def Let_def r l)
qed

lemma setup_segment_keeps:
  "\<exists>seg' a' csm' m'. setup_segment (acc, a, csm, m) seg = (acc @ [seg'], a', csm', m') \<and>
     keeps_segment_id seg seg'"
proof -
  from foldl_index_card_keeps [of "seg_node seg" "[]" a csm "seg_cards seg"]
  obtain cs' a' csm' where
    "index_cards (seg_node seg) a (seg_cards seg) csm = (cs', a', csm')"
    and "list_all2 keeps_card_id (seg_cards seg) cs'"
    by (auto simp: index_cards_def)
  then show ?thesis
    by (auto simp: setup_segment_def Let_def keeps_segment_id_def or_default_def
        derive_segId_nonempty truthy_def split: option.splits)
qed

lemma foldl_setup_segment_keeps:
  "\<exists>segs' a' csm' m'. foldl setup_segment (acc, a, csm, m) segs = (acc @ segs', a', csm', m') \<and>
     list_all2 keeps_segment_id segs segs'"
proof (induction segs arbitrary: acc a csm m)
  case Nil
  then show ?case by simp
next
  case (Cons seg segs)
  from setup_segment_keeps [of acc a csm m seg] obtain seg' a1 csm1 m1
    where 1: "setup_segment (acc, a, csm, m) seg = (acc @ [seg'], a1, csm1, m1)"
      and k: "keeps_segment_id seg seg'"
    by blast
  from Cons.IH [of "acc @ [seg']" a1 csm1 m1] obtain segs' a2 csm2 m2
    where 2: "foldl setup_segment (acc @ [seg'], a1, csm1, m1) segs
                = ((acc @ [seg']) @ segs', a2, csm2, m2)"
      and ks: "list_all2 keeps_segment_id segs segs'"
    by blast
  from 1 2 have "foldl setup_segment (acc, a, csm, m) (seg # segs)
      = (acc @ (seg' # segs'), a2, csm2, m2)"
    by simp
  moreover from k ks have "list_all2 keeps_segment_id (seg # segs) (seg' # segs')" by simp
  ultimately show ?case by blast
qed

text \<open>
  \<open>setupCards\<close> leaves every segment and card with an identifier, and keeps the
  identifiers that are already there.
\<close>

lemma setupCards_keeps_identifiers:
  "list_all2 keeps_segment_id (doc st) (doc (setupCards st))"
proof -
  from foldl_setup_segment_keeps [of "[]" 0 "cardSegmentMap st" "starredMap st" "doc st"]
  obtain segs' a' csm' m' where
    "foldl setup_segment ([], 0, cardSegmentMap st, starredMap st) (doc st) = (segs', a', csm', m')"
    and "list_all2 keeps_segment_id (doc st) segs'"
    by auto
  then show ?thesis by (simp add: setupCards_def)
qed

lemma index_card_indexes:
  "\<exists>c' a' csm'. index_card sn (acc, a, csm) c = (acc @ [c'], a', csm') \<and>
     truthy (dataset_id c') \<and> dataset_origIndex c' = Some (length acc)"
  by (auto simp: index_card_def Let_def or_default_def truthy_def show_nat_nonempty
      split: option.splits)

lemma foldl_index_card_indexes:
  "\<exists>cs' a' csm'. foldl (index_card sn) (acc, a, csm) cs = (acc @ cs', a', csm') \<and>
     indexed_from (length acc) cs'"
proof (induction cs arbitrary: acc a csm)
  case Nil
  have "indexed_from (length acc) []" by simp
  then show ?case by fastforce
next
  case (Cons c cs)
  from index_card_indexes [of sn acc a csm c] obtain c' a1 csm1
    where 1: "index_card sn (acc, a, csm) c = (acc @ [c'], a1, csm1)"
      and k: "truthy (dataset_id c')" "dataset_origIndex c' = Some (length acc)"
    by blast
  from Cons.IH [of "acc @ [c']" a1 csm1] obtain cs' a2 csm2
    where 2: "foldl (index_card sn) (acc @ [c'], a1, csm1) cs = ((acc @ [c']) @ cs', a2, csm2)"
      and ks: "indexed_from (length (acc @ [c'])) cs'"
    by blast
  from 1 2 have "foldl (index_card sn) (acc, a, csm) (c # cs) = (acc @ (c' # cs'), a2, csm2)"
    by simp
  moreover from k ks have "indexed_from (length acc) (c' # cs')" by simp
  ultimately show ?case by blast
qed

lemma index_card_indexed:
  assumes "truthy (dataset_id c)" and "dataset_origIndex c = Some (length acc)"
  shows "\<exists>csm'. index_card sn (acc, a, csm) c = (acc @ [c], a, csm')"
proof -
  from assms(1) obtain i where i: "dataset_id c = Some i" "i \<noteq> []"
    by (cases "dataset_id c") (simp_all add: truthy_def)
  then have "c\<lparr>dataset_id := Some i, dataset_origIndex := Some (length acc)\<rparr> = c"
    using assms(2) by simp
  with i assms(1) show ?thesis
    by (simp add: index_card_def Let_def or_default_def)
qed

lemma foldl_index_card_indexed:
  "indexed_from (length acc) cs \<Longrightarrow>
     \<exists>csm'. foldl (index_card sn) (acc, a, csm) cs = (acc @ cs, a, csm')"
proof (induction cs arbitrary: acc csm)
  case Nil
  then show ?case by simp
next
  case (Cons c cs)
  then have c: "truthy (dataset_id c)" "dataset_origIndex c = Some (length acc)"
    and rest: "indexed_from (length (acc @ [c])) cs" by simp_all
  from index_card_indexed [OF c, of sn a csm] obtain csm1
    where 1: "index_card sn (acc, a, csm) c = (acc @ [c], a, csm1)" by blast
  from Cons.IH [OF rest, of csm1] obtain csm2
    where "foldl (index_card sn) (acc @ [c], a, csm1) cs = ((acc @ [c]) @ cs, a, csm2)" by blast
  with 1 show ?case by simp
qed

lemma setup_segment_indexes:
  "\<exists>seg' a' csm' m'. setup_segment (acc, a, csm, m) seg = (acc @ [seg'], a', csm', m') \<and>
     segment_indexed seg'"
proof -
  from foldl_index_card_indexes [of "seg_node seg" "[]" a csm "seg_cards seg"]
  obtain cs' a' csm' where
    "index_cards (seg_node seg) a (seg_cards seg) csm = (cs', a', csm')"
    and "indexed_from 0 cs'"
    by (auto simp: index_cards_def)
  then show ?thesis
    by (auto simp: setup_segment_def Let_def segment_indexed_def or_default_def
        derive_segId_nonempty truthy_def split: option.splits)
qed

lemma setup_segment_indexed:
  assumes "segment_indexed seg"
  shows "\<exists>csm' m'. setup_segment (acc, a, csm, m) seg = (acc @ [seg], a, csm', m')"
proof -
  from assms have "indexed_from (length ([] :: card list)) (seg_cards seg)"
    by (simp add: segment_indexed_def)
  from foldl_index_card_indexed [OF this, of "seg_node seg" a csm]
  obtain csm' where cs: "index_cards (seg_node seg) a (seg_cards seg) csm = (seg_cards seg, a, csm')"
    by (auto simp: index_cards_def)
  from assms obtain k where k: "dataset_segId seg = Some k" "k \<noteq> []"
    by (cases "dataset_segId seg") (simp_all add: segment_indexed_def truthy_def)
  then have "seg\<lparr>dataset_segId := Some k, seg_cards := seg_cards seg\<rparr> = seg" by simp
  with cs k show ?thesis
    by (simp add: setup_segment_def Let_def or_default_def truthy_def)
qed

lemma foldl_setup_segment_indexes:
  "\<exists>segs' a' csm' m'. foldl setup_segment (acc, a, csm, m) segs = (acc @ segs', a', csm', m') \<and>
     list_all segment_indexed segs'"
proof (induction segs arbitrary: acc a csm m)
  case Nil
  have "list_all segment_indexed []" by simp
  then show ?case by fastforce
next
  case (Cons seg segs)
  from setup_segment_indexes [of acc a csm m seg] obtain seg' a1 csm1 m1
    where 1: "setup_segment (acc, a, csm, m) seg = (acc @ [seg'], a1, csm1, m1)"
      and k: "segment_indexed seg'"
    by blast
  from Cons.IH [of "acc @ [seg']" a1 csm1 m1] obtain segs' a2 csm2 m2
    where 2: "foldl setup_segment (acc @ [seg'], a1, csm1, m1) segs
                = ((acc @ [seg']) @ segs', a2, csm2, m2)"
      and ks: "list_all segment_indexed segs'"
    by blast
  from 1 2 have "foldl setup_segment (acc, a, csm, m) (seg # segs)
      = (acc @ (seg' # segs'), a2, csm2, m2)"
    by simp
  moreover from k ks have "list_all segment_indexed (seg' # segs')" by simp
  ultimately show ?case by blast
qed

lemma foldl_setup_segment_indexed:
  "list_all segment_indexed segs \<Longrightarrow>
     \<exists>csm' m'. foldl setup_segment (acc, a, csm, m) segs = (acc @ segs, a, csm', m')"
proof (induction segs arbitrary: acc csm m)
  case Nil
  then show ?case by simp
next
  case (Cons seg segs)
  then have s: "segment_indexed seg" and rest: "list_all segment_indexed segs" by simp_all
  from setup_segment_indexed [OF s, of acc a csm m] obtain csm1 m1
    where 1: "setup_segment (acc, a, csm, m) seg = (acc @ [seg], a, csm1, m1)" by blast
  from Cons.IH [OF rest, of "acc @ [seg]" csm1 m1] obtain csm2 m2
    where "foldl setup_segment (acc @ [seg], a, csm1, m1) segs = ((acc @ [seg]) @ segs, a, csm2, m2)"
    by blast
  with 1 show ?case by simp
qed

lemma setupCards_indexes: "list_all segment_indexed (doc (setupCards st))"
proof -
  from foldl_setup_segment_indexes [of "[]" 0 "cardSegmentMap st" "starredMap st" "doc st"]
  obtain segs' a' csm' m' where
    "foldl setup_segment ([], 0, cardSegmentMap st, starredMap st) (doc st) = (segs', a', csm', m')"
    and "list_all segment_indexed segs'"
    by auto
  then show ?thesis by (simp add: setupCards_def)
qed

lemma setupCards_indexed: "list_all segment_indexed (doc st) \<Longrightarrow> doc (setupCards st) = doc st"
proof -
  assume "list_all segment_indexed (doc st)"
  from foldl_setup_segment_indexed [OF this, of "[]" 0 "cardSegmentMap st" "starredMap st"]
  obtain csm' m' where
    "foldl setup_segment ([], 0, cardSegmentMap st, starredMap st) (doc st) = (doc st, 0, csm', m')"
    by auto
  then show ?thesis by (simp add: setupCards_def)
qed

text \<open>
  On a document that has not changed since it was indexed, a second run of
  \<open>setupCards\<close> changes no identifier and no original index.
\<close>

lemma setupCards_twice: "doc (setupCards (setupCards st)) = doc (setupCards st)"
  by (rule setupCards_indexed) (rule setupCards_indexes)

subsection \<open>Examples that fix the reading of the definitions\<close>

lemma decodeURIComponent_examples:
  "decodeURIComponent ''abc'' = Inr ''abc''
   \<and> decodeURIComponent ''bob%20x'' = Inr ''bob x''
   \<and> decodeURIComponent ''a%2Fb%3d'' = Inr ''a/b=''
   \<and> decodeURIComponent ''%'' = Inl URIError
   \<and> decodeURIComponent ''100%'' = Inl URIError
   \<and> decodeURIComponent ''%zz'' = Inl URIError
   \<and> decodeURIComponent ''%ff'' = Inl URIError"
  by code_simp

lemma own_entries_example:
  "own_entries [(''b'', [Str ''x'']), (''2'', []), (''a'', []), (''10'', [Null]), (''1'', []),
                (''01'', [])]
     = [(''1'', []), (''2'', []), (''10'', [Null]), (''b'', [Str ''x'']), (''a'', []),
        (''01'', [])]"
  by code_simp

text \<open>
  The segments of the registry come back in the order of the object's keys, which is
  not the order of the registry when a \<open>segId\<close> is an array index.
\<close>

lemma index_like_segment_moves_ahead:
  "hydrate [] (snapshot [(''tools_grid'', [Str ''card-1'']), (''7'', [Str ''card-9''])])
     = [(''7'', [Str ''card-9'']), (''tools_grid'', [Str ''card-1''])]"
  by code_simp

text \<open>
  A star toggled before the first frame: the full reorder empties the grid into its
  fragment, the reposition callback of the same frame finds the grid empty and appends
  the card to it, and the next frame appends the rest of the fragment.
\<close>

lemma toggle_before_first_frame:
  "map (\<lambda>seg. map card_node (seg_cards seg))
       (doc (run (init (OpenrootApp (grid_page [1, 2, 3, 4, 5]) None))
               [Toggle (click 3 True), Frame])) = [[3]]
   \<and> map (\<lambda>(i, cs). map card_node cs)
       (fragments (run (init (OpenrootApp (grid_page [1, 2, 3, 4, 5]) None))
               [Toggle (click 3 True), Frame])) = [[1, 2, 4, 5]]
   \<and> map (\<lambda>seg. map card_node (seg_cards seg))
       (doc (run (init (OpenrootApp (grid_page [1, 2, 3, 4, 5]) None))
               [Toggle (click 3 True), Frame, Frame])) = [[3, 1, 2, 4, 5]]"
  by code_simp

text \<open>
  A falsy member at the front of a full set is not evicted, whatever its type: with the
  number 0 persisted in front of four identifiers, starring a sixth card leaves six
  members.
\<close>

lemma zero_oldest_is_not_evicted:
  "get_set (starredMap (toggleStar (init (OpenrootApp tools_page
      (Some (Entries [(''tools_grid'',
         Ids [Num (Finite 0), Str ''card-1'', Str ''card-2'', Str ''card-3'', Str ''card-4''])]))))
      (click 6 True)))
     (Some ''tools_grid'')
   = [Num (Finite 0), Str ''card-1'', Str ''card-2'', Str ''card-3'', Str ''card-4'',
      Str ''card-6'']"
  by code_simp

section \<open>The claims\<close>




text \<open>
  C3. When the clicked card is not starred, its segment's set is at capacity and the
  confirmation is declined, \<open>toggleStar\<close> returns the state as it was: the registry of
  every segment, the storage slot, the calls of \<open>Storage.set\<close>, the document, the
  fragments and the pending frames.
\<close>

theorem declined_eviction_changes_nothing:
  assumes "resolves st ev cid segId"
    and "\<not> set_has (get_set (starredMap st) (Some segId)) (Str cid)"
    and "MAX_STARS \<le> length (get_set (starredMap st) (Some segId))"
    and "\<not> ev_confirm ev"
  shows "toggleStar st ev = st"
proof -
  from assms(3) obtain s where "map_of (starredMap st) segId = Some s"
    by (auto simp: get_set_def MAX_STARS_def split: option.splits)
  with assms show ?thesis
    by (simp add: toggleStar_resolves toggle_resolved_def Let_def)
qed

theorem declined_eviction_changes_nothing_witness:
  "resolves five_starred (click 6 False) ''card-6'' ''tools_grid''
   \<and> \<not> set_has (get_set (starredMap five_starred) (Some ''tools_grid'')) (Str ''card-6'')
   \<and> MAX_STARS \<le> length (get_set (starredMap five_starred) (Some ''tools_grid''))
   \<and> \<not> ev_confirm (click 6 False)
   \<and> toggleStar five_starred (click 6 False) = five_starred"
proof -
  have r: "resolves five_starred (click 6 False) ''card-6'' ''tools_grid''"
    by code_simp
  have n: "\<not> set_has (get_set (starredMap five_starred) (Some ''tools_grid'')) (Str ''card-6'')"
    by code_simp
  have f: "MAX_STARS \<le> length (get_set (starredMap five_starred) (Some ''tools_grid''))"
    by code_simp
  have c: "\<not> ev_confirm (click 6 False)"
    by (simp add: click_def)
  from r n f c declined_eviction_changes_nothing [OF r n f c] show ?thesis by blast
qed

text \<open>
  C4, as amended. In every state reached from \<open>init\<close> by toggles and frames, for every
  segment whose \<open>segId\<close> is not \<open>__proto__\<close> and whose set holds only strings, finite
  numbers, booleans and \<open>null\<close> (every member added by a toggle is a string; nested
  arrays and objects are left out):
  building \<open>toSave\<close> from the registry, writing it to the slot and hydrating an empty
  registry from the slot gives the segment the same set, with the same members in the
  same insertion order, and no set if it had none.
\<close>

theorem segment_survives_roundtrip:
  assumes "segId \<noteq> ''__proto__''"
    and "list_all json_stable
           (get_set (starredMap (run (init (OpenrootApp d sl)) es)) (Some segId))"
  shows "map_of (hydrate [] (snapshot (starredMap (run (init (OpenrootApp d sl)) es)))) segId
     = map_of (starredMap (run (init (OpenrootApp d sl)) es)) segId"
  using wf_registry_run [of d sl es] assms by (rule roundtrip_segment)

theorem segment_survives_roundtrip_witness:
  "''tools_grid'' \<noteq> ''__proto__''
   \<and> list_all json_stable
       (get_set (starredMap
          (run (init (OpenrootApp tools_page
                  (Some (Entries [(''7'', Ids [Bool True]),
                                  (''tools_grid'', Ids [Str ''card-2'', Num (Finite 7)])]))))
             [Toggle (click 1 True), Frame, Toggle (click 3 True)]))
          (Some ''tools_grid''))
   \<and> map_of (hydrate [] (snapshot (starredMap
          (run (init (OpenrootApp tools_page
                  (Some (Entries [(''7'', Ids [Bool True]),
                                  (''tools_grid'', Ids [Str ''card-2'', Num (Finite 7)])]))))
             [Toggle (click 1 True), Frame, Toggle (click 3 True)]))))
        ''tools_grid''
       = map_of (starredMap
          (run (init (OpenrootApp tools_page
                  (Some (Entries [(''7'', Ids [Bool True]),
                                  (''tools_grid'', Ids [Str ''card-2'', Num (Finite 7)])]))))
             [Toggle (click 1 True), Frame, Toggle (click 3 True)]))
        ''tools_grid''
   \<and> map_of (starredMap
          (run (init (OpenrootApp tools_page
                  (Some (Entries [(''7'', Ids [Bool True]),
                                  (''tools_grid'', Ids [Str ''card-2'', Num (Finite 7)])]))))
             [Toggle (click 1 True), Frame, Toggle (click 3 True)]))
        ''tools_grid''
       = Some [Str ''card-2'', Num (Finite 7), Str ''card-1'', Str ''card-3'']"
proof -
  have n: "''tools_grid'' \<noteq> ''__proto__''" by simp
  have s: "list_all json_stable
       (get_set (starredMap
          (run (init (OpenrootApp tools_page
                  (Some (Entries [(''7'', Ids [Bool True]),
                                  (''tools_grid'', Ids [Str ''card-2'', Num (Finite 7)])]))))
             [Toggle (click 1 True), Frame, Toggle (click 3 True)]))
          (Some ''tools_grid''))"
    by code_simp
  have v: "map_of (starredMap
          (run (init (OpenrootApp tools_page
                  (Some (Entries [(''7'', Ids [Bool True]),
                                  (''tools_grid'', Ids [Str ''card-2'', Num (Finite 7)])]))))
             [Toggle (click 1 True), Frame, Toggle (click 3 True)]))
        ''tools_grid''
       = Some [Str ''card-2'', Num (Finite 7), Str ''card-1'', Str ''card-3'']"
    by code_simp
  from n s segment_survives_roundtrip [OF n s] v show ?thesis by blast
qed

text \<open>
  C4, as stated, fails. An infinity read from the slot (the JSON text \<open>1e999\<close>) is a
  member like any other, and \<open>JSON.stringify\<close> writes it as \<open>null\<close>: after one star
  toggle the set \<open>Infinity, card-1\<close> of the grid is read back as \<open>null, card-1\<close>. And
  on a page whose grid has the identifier \<open>__proto__\<close>, the assignment
  \<open>toSave[segId] = ...\<close> creates no property: after one star toggle the slot holds
  the empty object, and the set \<open>card-1\<close> of the grid is not read back at all.
\<close>

theorem roundtrip_loses_members_and_segments:
  "get_set (starredMap
      (run (init (OpenrootApp tools_page
              (Some (Entries [(''tools_grid'', Ids [Num (Infinite True)])]))))
         [Toggle (click 1 True)]))
      (Some ''tools_grid'') = [Num (Infinite True), Str ''card-1'']
   \<and> get_set (hydrate [] (snapshot (starredMap
      (run (init (OpenrootApp tools_page
              (Some (Entries [(''tools_grid'', Ids [Num (Infinite True)])]))))
         [Toggle (click 1 True)]))))
      (Some ''tools_grid'') = [Null, Str ''card-1'']
   \<and> starredMap (run (init (OpenrootApp proto_page None)) [Toggle (click 1 True)])
       = [(''__proto__'', [Str ''card-1''])]
   \<and> slot (run (init (OpenrootApp proto_page None)) [Toggle (click 1 True)])
       = Some (Entries [])
   \<and> hydrate [] (snapshot
        (starredMap (run (init (OpenrootApp proto_page None)) [Toggle (click 1 True)]))) = []"
  by code_simp

text \<open>
  C2, as amended. In a state reached from \<open>init\<close>, when the clicked card is not in its
  segment's set, the set holds \<open>MAX_STARS\<close> members or more, the eviction is confirmed
  and the earliest-inserted member passes the guard \<open>if (oldest)\<close> of line 271 (it is a
  non-empty identifier, as every member added by a toggle is, or another truthy value),
  the toggle removes exactly that member and appends the clicked card; no other
  segment changes.
\<close>

theorem confirmed_eviction_evicts_oldest:
  assumes "st = run (init (OpenrootApp d sl)) es"
    and "resolves st ev cid segId"
    and "get_set (starredMap st) (Some segId) = oldest # rest"
    and "MAX_STARS \<le> length (oldest # rest)"
    and "\<not> set_has (oldest # rest) (Str cid)"
    and "ev_confirm ev"
    and "js_truthy oldest"
  shows "starredMap (toggleStar st ev) = AList.update segId (rest @ [Str cid]) (starredMap st)"
proof -
  from assms(1) have "wf_registry (starredMap st)" by (simp add: wf_registry_run)
  then have "all_sets distinct (starredMap st)" by (simp add: wf_registry_def all_sets_def)
  then have "distinct (get_set (starredMap st) (Some segId))"
    by (rule all_sets_get_set) simp
  with assms have "toggled (get_set (starredMap st) (Some segId)) cid = rest @ [Str cid]"
    by (simp add: toggled_evicts set_has_def)
  with assms show ?thesis
    by (simp add: toggleStar_resolves starredMap_toggle_resolved aborted_def)
qed

theorem confirmed_eviction_evicts_oldest_witness:
  "five_starred = run (init (OpenrootApp tools_page None))
       [Toggle (click 1 True), Toggle (click 2 True), Toggle (click 3 True),
        Toggle (click 4 True), Toggle (click 5 True)]
   \<and> resolves five_starred (click 6 True) ''card-6'' ''tools_grid''
   \<and> get_set (starredMap five_starred) (Some ''tools_grid'')
       = Str ''card-1'' # [Str ''card-2'', Str ''card-3'', Str ''card-4'', Str ''card-5'']
   \<and> js_truthy (Str ''card-1'')
   \<and> starredMap (toggleStar five_starred (click 6 True))
       = AList.update ''tools_grid''
           ([Str ''card-2'', Str ''card-3'', Str ''card-4'', Str ''card-5''] @ [Str ''card-6''])
           (starredMap five_starred)"
proof -
  have r: "resolves five_starred (click 6 True) ''card-6'' ''tools_grid''"
    by code_simp
  have g: "get_set (starredMap five_starred) (Some ''tools_grid'')
       = Str ''card-1'' # [Str ''card-2'', Str ''card-3'', Str ''card-4'', Str ''card-5'']"
    by code_simp
  have f: "MAX_STARS \<le> length (Str ''card-1'' # [Str ''card-2'', Str ''card-3'', Str ''card-4'',
                                  Str ''card-5''])"
    by (simp add: MAX_STARS_def)
  have n: "\<not> set_has (Str ''card-1'' # [Str ''card-2'', Str ''card-3'', Str ''card-4'',
                          Str ''card-5'']) (Str ''card-6'')"
    by (simp add: set_has_def)
  have c: "ev_confirm (click 6 True)" by (simp add: click_def)
  have o: "js_truthy (Str ''card-1'')" by (simp add: js_truthy_def)
  from confirmed_eviction_evicts_oldest [OF five_starred_def r g f n c o] five_starred_def r g o
  show ?thesis by blast
qed

text \<open>
  C2, as stated, fails when the earliest-inserted member is the empty identifier, which
  hydration accepts: the guard \<open>if (oldest)\<close> of line 271 skips the deletion, nothing is
  evicted and the set grows to six.
\<close>

theorem empty_oldest_is_not_evicted:
  "get_set (starredMap (init (OpenrootApp tools_page
      (Some (Entries [(''tools_grid'',
         Ids [Str [], Str ''card-1'', Str ''card-2'', Str ''card-3'', Str ''card-4''])])))))
     (Some ''tools_grid'')
     = [Str [], Str ''card-1'', Str ''card-2'', Str ''card-3'', Str ''card-4'']
   \<and> get_set (starredMap (toggleStar (init (OpenrootApp tools_page
      (Some (Entries [(''tools_grid'',
         Ids [Str [], Str ''card-1'', Str ''card-2'', Str ''card-3'', Str ''card-4''])]))))
      (click 6 True)))
     (Some ''tools_grid'')
     = [Str [], Str ''card-1'', Str ''card-2'', Str ''card-3'', Str ''card-4'', Str ''card-6'']"
  by code_simp

text \<open>
  C10. A toggle leaves every card other than the clicked one as it was, star button
  included, in every segment (and in every fragment of a reorder under way). In
  particular the card evicted from a full segment keeps the attributes of a starred
  button although it has left the starred set.
\<close>

theorem toggle_leaves_other_cards:
  "map (\<lambda>seg. filter (\<lambda>c. card_node c \<noteq> ev_target ev) (seg_cards seg)) (doc (toggleStar st ev))
     = map (\<lambda>seg. filter (\<lambda>c. card_node c \<noteq> ev_target ev) (seg_cards seg)) (doc st)
   \<and> map (\<lambda>(i, cs). (i, filter (\<lambda>c. card_node c \<noteq> ev_target ev) cs))
       (fragments (toggleStar st ev))
     = map (\<lambda>(i, cs). (i, filter (\<lambda>c. card_node c \<noteq> ev_target ev) cs)) (fragments st)"
proof -
  from doc_toggleStar [of st ev] show ?thesis
  proof
    assume "doc (toggleStar st ev) = doc st \<and> fragments (toggleStar st ev) = fragments st"
    then show ?thesis by simp
  next
    assume "\<exists>b. doc (toggleStar st ev) = on_button (ev_target ev) (\<lambda>btn. updateStarAttr btn b) (doc st)
      \<and> fragments (toggleStar st ev)
          = on_button_detached (ev_target ev) (\<lambda>btn. updateStarAttr btn b) (fragments st)"
    then obtain b where
      "doc (toggleStar st ev) = on_button (ev_target ev) (\<lambda>btn. updateStarAttr btn b) (doc st)"
      "fragments (toggleStar st ev)
          = on_button_detached (ev_target ev) (\<lambda>btn. updateStarAttr btn b) (fragments st)"
      by blast
    then show ?thesis by (simp only: others_on_button others_on_button_detached)
  qed
qed

theorem toggle_leaves_other_cards_witness:
  "map (\<lambda>seg. filter (\<lambda>c. card_node c \<noteq> 6) (seg_cards seg))
       (doc (toggleStar five_starred (click 6 True)))
     = map (\<lambda>seg. filter (\<lambda>c. card_node c \<noteq> 6) (seg_cards seg)) (doc five_starred)
   \<and> \<not> set_has (get_set (starredMap (toggleStar five_starred (click 6 True))) (Some ''tools_grid''))
          (Str ''card-1'')
   \<and> map_option (\<lambda>c. (dataset_id c, star_btn c)) (find_card five_starred 1)
       = Some (Some ''card-1'',
               Some \<lparr>starred_class = True, aria_pressed = Some ''true'',
                     aria_label = Some ''Unstar card''\<rparr>)
   \<and> find_card (toggleStar five_starred (click 6 True)) 1 = find_card five_starred 1"
proof -
  have t: "ev_target (click 6 True) = 6" by (simp add: click_def)
  have a: "map (\<lambda>seg. filter (\<lambda>c. card_node c \<noteq> 6) (seg_cards seg))
       (doc (toggleStar five_starred (click 6 True)))
     = map (\<lambda>seg. filter (\<lambda>c. card_node c \<noteq> 6) (seg_cards seg)) (doc five_starred)"
    using toggle_leaves_other_cards [of "click 6 True" five_starred] by (simp only: t)
  have b: "\<not> set_has (get_set (starredMap (toggleStar five_starred (click 6 True))) (Some ''tools_grid''))
          (Str ''card-1'')"
    by code_simp
  have c: "map_option (\<lambda>c. (dataset_id c, star_btn c)) (find_card five_starred 1)
       = Some (Some ''card-1'',
               Some \<lparr>starred_class = True, aria_pressed = Some ''true'',
                     aria_label = Some ''Unstar card''\<rparr>)"
    by code_simp
  have d: "find_card (toggleStar five_starred (click 6 True)) 1 = find_card five_starred 1"
    by code_simp
  from a b c d show ?thesis by blast
qed

text \<open>
  C6. Startup identity resolution does not succeed for every query string: the
  parameter value \<open>%\<close> (query string \<open>?uid=%25\<close>) makes \<open>decodeURIComponent\<close> raise
  \<open>URIError\<close> at line 23, outside every \<open>try\<close>, so the script stops before the
  application is created.
\<close>

theorem malformed_uid_aborts_startup:
  "resolve_uid \<lparr>url_uid = Some ''%'', url_user = None, main_local = None, main_session = None,
                cache_slot = None\<rparr> = Inl URIError"
  by code_simp

text \<open>
  C8. The resolved identity is not always the first defined value of the
  specification's order: line 23 decodes the query parameter once more, after
  \<open>URLSearchParams.get\<close> has decoded it. For the query string \<open>?uid=bob%2520x\<close> the
  URL-decoded token is \<open>bob%20x\<close>, and the script resolves (and caches) \<open>bob x\<close>; for
  \<open>?user=100%25\<close> the token is \<open>100%\<close>, and the script raises \<open>URIError\<close>
  although a cached token is there. Without a percent sign in the decoded token the
  order and the cache rule are those of the specification (lemma
  \<open>resolve_uid_without_percent\<close>).
\<close>

theorem decoded_uid_is_decoded_again:
  "spec_identity (visit (Some ''bob%20x'') (Some ''u1'')) = ''bob%20x''
   \<and> resolve_uid (visit (Some ''bob%20x'') (Some ''u1''))
       = Inr \<lparr>USER_UID = ''bob x'', cache_after = Some ''bob x'', cache_written = True\<rparr>
   \<and> spec_identity \<lparr>url_uid = None, url_user = Some ''100%'', main_local = None,
                     main_session = None, cache_slot = Some ''u1''\<rparr> = ''100%''
   \<and> resolve_uid \<lparr>url_uid = None, url_user = Some ''100%'', main_local = None,
                   main_session = None, cache_slot = Some ''u1''\<rparr> = Inl URIError"
  by code_simp

text \<open>
  C5, as amended. The full reorder lays out the starred cards first, in the order they
  have in the document (the insertion order of the set plays no part), then the
  unstarred cards by ascending original index, cards of equal index in document order.
  For cards in document order 0..4 with stars on 1 and 3 this is 1, 3, 0, 2, 4,
  whichever of the two was starred first.
\<close>

theorem full_reorder_keeps_document_order:
  "reorder_cards segSet cards
     = filter (is_starred segSet) cards @ sort_key orig (filter (\<lambda>c. \<not> is_starred segSet c) cards)
   \<and> (set segSet' = set segSet \<longrightarrow> reorder_cards segSet' cards = reorder_cards segSet cards)"
proof
  show "reorder_cards segSet cards
     = filter (is_starred segSet) cards @ sort_key orig (filter (\<lambda>c. \<not> is_starred segSet c) cards)"
  proof (cases "length cards \<le> 1")
    case True
    then consider "cards = []" | c where "cards = [c]"
      by (cases cards) (auto simp: length_Suc_conv)
    then show ?thesis
      by cases (simp_all add: reorder_cards_def)
  next
    case False
    then show ?thesis by (simp add: reorder_cards_def split_cards_filter)
  qed
  show "set segSet' = set segSet \<longrightarrow> reorder_cards segSet' cards = reorder_cards segSet cards"
    by (simp add: reorder_cards_def split_cards_filter is_starred_set [of segSet' segSet])
qed

theorem full_reorder_keeps_document_order_witness:
  "set [Str ''card-4'', Str ''card-2''] = set [Str ''card-2'', Str ''card-4'']
   \<and> map orig (reorder_cards [Str ''card-2'', Str ''card-4''] (map indexed_card [0, 1, 2, 3, 4]))
       = [1, 3, 0, 2, 4]
   \<and> map orig (reorder_cards [Str ''card-4'', Str ''card-2''] (map indexed_card [0, 1, 2, 3, 4]))
       = [1, 3, 0, 2, 4]"
proof -
  have s: "set [Str ''card-4'', Str ''card-2''] = set [Str ''card-2'', Str ''card-4'']" by auto
  have a: "map orig (filter (is_starred [Str ''card-2'', Str ''card-4'']) (map indexed_card [0, 1, 2, 3, 4])
       @ sort_key orig (filter (\<lambda>c. \<not> is_starred [Str ''card-2'', Str ''card-4''] c)
           (map indexed_card [0, 1, 2, 3, 4]))) = [1, 3, 0, 2, 4]"
    by code_simp
  from full_reorder_keeps_document_order
    [of "[Str ''card-2'', Str ''card-4'']" "map indexed_card [0, 1, 2, 3, 4]"
       "[Str ''card-4'', Str ''card-2'']"]
    s a
  show ?thesis by simp
qed

text \<open>
  C5, as stated, fails: with card 3 starred before card 1 (the persisted list is
  \<open>card-4, card-2\<close>), the full reorder that \<open>init\<close> schedules (one frame for the fragment, one for
  its append) yields 1, 3, 0, 2, 4
  and not 3, 1, 0, 2, 4.
\<close>

theorem full_reorder_ignores_star_order:
  "get_set (starredMap (init (OpenrootApp (grid_page [1, 2, 3, 4, 5])
      (Some (Entries [(''tools_grid'', Ids [Str ''card-4'', Str ''card-2''])])))))
      (Some ''tools_grid'') = [Str ''card-4'', Str ''card-2'']
   \<and> map (\<lambda>seg. map orig (seg_cards seg))
       (doc (run_frame (run_frame (init (OpenrootApp (grid_page [1, 2, 3, 4, 5])
          (Some (Entries [(''tools_grid'', Ids [Str ''card-4'', Str ''card-2''])])))))))
     = [[1, 3, 0, 2, 4]]
   \<and> map (\<lambda>seg. map orig (seg_cards seg))
       (doc (run_frame (run_frame (init (OpenrootApp (grid_page [1, 2, 3, 4, 5])
          (Some (Entries [(''tools_grid'', Ids [Str ''card-4'', Str ''card-2''])])))))))
     \<noteq> [[3, 1, 0, 2, 4]]"
  by code_simp

text \<open>
  C9. Let the cards of a segment have distinct nodes, and let an unstarred card of the
  segment be repositioned. Split the other cards, in document order, into the part that
  ends with the last starred card and the unstarred cards behind it. The card goes behind
  the first part, after the unstarred cards whose original index does not exceed its
  own: before the first one with a larger original index, at the end if there is none.
  With cards 0 and 4 starred, 1 and 3 unstarred and card 2 just unstarred, the order
  0, 4, 1, 3 of the others becomes 0, 4, 1, 2, 3.
\<close>

theorem unstarred_card_repositioned:
  assumes "distinct (map card_node cards)" and "crd \<in> set cards"
    and "\<not> has_card segSet crd"
    and "detach crd cards = ahead @ behind"
    and "ahead = [] \<or> has_card segSet (last ahead)"
    and "list_all (\<lambda>c. \<not> has_card segSet c) behind"
  shows "reposition_cards segSet crd cards
     = ahead @ takeWhile (\<lambda>c. orig c \<le> orig crd) behind
         @ crd # dropWhile (\<lambda>c. orig c \<le> orig crd) behind"
proof -
  let ?R = "\<lambda>c. card_node c \<noteq> card_node crd"
  let ?Q = "\<lambda>c. \<not> has_card segSet c"
  let ?T = "\<lambda>cur. orig crd < orig cur"
  let ?U = "drop (nat (lastStarIdx segSet cards + 1)) cards"
  have only: "c = crd" if "c \<in> set cards" and "\<not> ?R c" for c
    using that assms(1,2) by (auto simp: distinct_map dest: inj_onD)
  have behind_all: "\<forall>c \<in> set behind. \<not> has_card segSet c"
    using assms(6) by (simp add: list_all_iff)
  have "rev (takeWhile ?Q (rev (detach crd cards))) = behind"
    using assms(4,5) behind_all by (rule unstarred_suffix_unique)
  moreover have "takeWhile ?Q (filter ?R (rev cards)) = filter ?R (takeWhile ?Q (rev cards))"
    by (rule takeWhile_filter_commute) (use only assms(3) in auto)
  ultimately have behind_eq: "filter ?R ?U = behind"
    by (simp add: detach_def drop_lastStarIdx rev_filter [symmetric])
  have "find ?T (filter ?R ?U) = find ?T ?U"
    by (rule find_filter_skip) (use only in \<open>auto dest: in_set_dropD\<close>)
  with behind_eq have find_eq: "find ?T ?U = find ?T behind" by simp
  have le: "(\<lambda>c. \<not> ?T c) = (\<lambda>c. orig c \<le> orig crd)" by (auto simp: not_less)
  show ?thesis
  proof (cases "find ?T behind")
    case None
    then have "\<forall>c \<in> set behind. orig c \<le> orig crd"
      by (auto dest!: find_None_all simp: not_less)
    then have tw: "takeWhile (\<lambda>c. orig c \<le> orig crd) behind = behind"
      and dw: "dropWhile (\<lambda>c. orig c \<le> orig crd) behind = []" by simp_all
    from None find_eq assms(3,4) show ?thesis
      unfolding tw dw by (simp add: reposition_cards_def appendChild_def)
  next
    case (Some b)
    let ?L = "takeWhile (\<lambda>c. orig c \<le> orig crd) behind"
    let ?D = "dropWhile (\<lambda>c. orig c \<le> orig crd) behind"
    from find_Some_split [OF Some] have b: "b \<in> set behind" and D: "?D = b # tl ?D"
      by (simp_all add: le)
    have behind_split: "behind = ?L @ b # tl ?D"
      using takeWhile_dropWhile_id [of "\<lambda>c. orig c \<le> orig crd" behind] D by simp
    have "distinct (map card_node (detach crd cards))"
      using assms(1) by (simp add: detach_def distinct_map_filter)
    with assms(4) behind_split have "distinct (map card_node ((ahead @ ?L) @ b # tl ?D))"
      by simp
    then have "\<forall>c \<in> set (ahead @ ?L). card_node c \<noteq> card_node b"
      by (rule distinct_map_before)
    then have "insert_at crd b ((ahead @ ?L) @ b # tl ?D) = (ahead @ ?L) @ crd # b # tl ?D"
      by (rule insert_at_found)
    with behind_split D assms(4) have "insertBefore crd b cards = ahead @ ?L @ crd # ?D"
      by (simp add: insertBefore_def)
    with Some find_eq assms(3) show ?thesis
      by (simp add: reposition_cards_def)
  qed
qed

theorem unstarred_card_repositioned_witness:
  "distinct (map card_node (map indexed_card [0, 4, 2, 1, 3]))
   \<and> indexed_card 2 \<in> set (map indexed_card [0, 4, 2, 1, 3])
   \<and> \<not> has_card [Str ''card-1'', Str ''card-5''] (indexed_card 2)
   \<and> detach (indexed_card 2) (map indexed_card [0, 4, 2, 1, 3])
       = map indexed_card [0, 4] @ map indexed_card [1, 3]
   \<and> has_card [Str ''card-1'', Str ''card-5''] (last (map indexed_card [0, 4]))
   \<and> list_all (\<lambda>c. \<not> has_card [Str ''card-1'', Str ''card-5''] c) (map indexed_card [1, 3])
   \<and> map orig (reposition_cards [Str ''card-1'', Str ''card-5''] (indexed_card 2)
                  (map indexed_card [0, 4, 2, 1, 3])) = [0, 4, 1, 2, 3]
   \<and> map (\<lambda>seg. map orig (seg_cards seg))
       (doc (run (init (OpenrootApp (grid_page [1, 2, 3, 4, 5]) None))
          [Frame, Frame, Toggle (click 1 True), Frame, Toggle (click 5 True), Frame,
           Toggle (click 3 True), Frame])) = [[0, 4, 2, 1, 3]]
   \<and> map (\<lambda>seg. map orig (seg_cards seg))
       (doc (run (init (OpenrootApp (grid_page [1, 2, 3, 4, 5]) None))
          [Frame, Frame, Toggle (click 1 True), Frame, Toggle (click 5 True), Frame,
           Toggle (click 3 True), Frame, Toggle (click 3 True), Frame])) = [[0, 4, 1, 2, 3]]"
proof -
  have p1: "map (\<lambda>seg. map orig (seg_cards seg))
       (doc (run (init (OpenrootApp (grid_page [1, 2, 3, 4, 5]) None))
          [Frame, Frame, Toggle (click 1 True), Frame, Toggle (click 5 True), Frame,
           Toggle (click 3 True), Frame])) = [[0, 4, 2, 1, 3]]" by code_simp
  have p2: "map (\<lambda>seg. map orig (seg_cards seg))
       (doc (run (init (OpenrootApp (grid_page [1, 2, 3, 4, 5]) None))
          [Frame, Frame, Toggle (click 1 True), Frame, Toggle (click 5 True), Frame,
           Toggle (click 3 True), Frame, Toggle (click 3 True), Frame])) = [[0, 4, 1, 2, 3]]"
    by code_simp
  have d: "distinct (map card_node (map indexed_card [0, 4, 2, 1, 3]))" by code_simp
  have m: "indexed_card 2 \<in> set (map indexed_card [0, 4, 2, 1, 3])" by simp
  have u: "\<not> has_card [Str ''card-1'', Str ''card-5''] (indexed_card 2)" by code_simp
  have s: "detach (indexed_card 2) (map indexed_card [0, 4, 2, 1, 3])
       = map indexed_card [0, 4] @ map indexed_card [1, 3]" by code_simp
  have l: "has_card [Str ''card-1'', Str ''card-5''] (last (map indexed_card [0, 4]))" by code_simp
  then have l': "map indexed_card [0, 4] = [] \<or>
      has_card [Str ''card-1'', Str ''card-5''] (last (map indexed_card [0, 4]))" ..
  have a: "list_all (\<lambda>c. \<not> has_card [Str ''card-1'', Str ''card-5''] c) (map indexed_card [1, 3])"
    by code_simp
  have r: "map orig (map indexed_card [0, 4]
       @ takeWhile (\<lambda>c. orig c \<le> orig (indexed_card 2)) (map indexed_card [1, 3])
       @ indexed_card 2 # dropWhile (\<lambda>c. orig c \<le> orig (indexed_card 2)) (map indexed_card [1, 3]))
     = [0, 4, 1, 2, 3]" by code_simp
  from unstarred_card_repositioned [OF d m u s l' a] r
  have "map orig (reposition_cards [Str ''card-1'', Str ''card-5''] (indexed_card 2)
                  (map indexed_card [0, 4, 2, 1, 3])) = [0, 4, 1, 2, 3]" by (simp only:)
  with d m u s l a p1 p2 show ?thesis by blast
qed

text \<open>
  C7. The indexer is not idempotent on the original index: \<open>setupCards\<close> writes
  \<open>dataset.origIndex\<close> on every run (line 154 has no guard, unlike lines 146 and 153).
  On a grid of three cards, after the first reorder is done and the third card is starred
  and moved to the front, a
  second run (directly, or through \<open>destroy\<close> and \<open>init\<close>) records the indices
  0, 1, 2 for the cards first found at 2, 0, 1; the identifiers are kept.
\<close>

theorem reindexing_overwrites_original_index:
  "map (\<lambda>seg. map (\<lambda>c. (dataset_id c, dataset_origIndex c)) (seg_cards seg))
     (doc (run (init (OpenrootApp (grid_page [1, 2, 3]) None)) [Frame, Frame, Toggle (click 3 True), Frame]))
     = [[(Some ''card-3'', Some 2), (Some ''card-1'', Some 0), (Some ''card-2'', Some 1)]]
   \<and> map (\<lambda>seg. map (\<lambda>c. (dataset_id c, dataset_origIndex c)) (seg_cards seg))
     (doc (setupCards
        (run (init (OpenrootApp (grid_page [1, 2, 3]) None)) [Frame, Frame, Toggle (click 3 True), Frame])))
     = [[(Some ''card-3'', Some 0), (Some ''card-1'', Some 1), (Some ''card-2'', Some 2)]]
   \<and> map (\<lambda>seg. map (\<lambda>c. (dataset_id c, dataset_origIndex c)) (seg_cards seg))
     (doc (init (destroy
        (run (init (OpenrootApp (grid_page [1, 2, 3]) None)) [Frame, Frame, Toggle (click 3 True), Frame]))))
     = [[(Some ''card-3'', Some 0), (Some ''card-1'', Some 1), (Some ''card-2'', Some 2)]]"
  by code_simp

end
